theory Spec2Isabelle
  imports Complex_Main "HOL-Library.Char_ord" "HOL-Library.List_Lexorder"
begin

section \<open>Time model\<close>

text \<open>
  Python's \<^verbatim>\<open>datetime\<close> has microsecond resolution.  An absolute instant is the
  number of microseconds since the epoch (UTC); a \<^verbatim>\<open>timedelta\<close> is a number of
  microseconds; a naive wall-clock \<^verbatim>\<open>time\<close> is the number of microseconds since
  local midnight.  The range limits of \<^verbatim>\<open>datetime\<close> (years 1 to 9999) are not
  modelled.
\<close>

type_synonym instant = int
type_synonym timedelta = int
type_synonym time_of_day = int

definition US_PER_SECOND :: int where "US_PER_SECOND = 1000000"
definition US_PER_MINUTE :: int where "US_PER_MINUTE = 60 * 1000000"
definition US_PER_HOUR :: int where "US_PER_HOUR = 3600 * 1000000"
definition US_PER_DAY :: int where "US_PER_DAY = 86400 * 1000000"

text \<open>\<^verbatim>\<open>time(h, m, s, us)\<close>\<close>

definition time_hmsu :: "int \<Rightarrow> int \<Rightarrow> int \<Rightarrow> int \<Rightarrow> time_of_day" where
  "time_hmsu h m s us = h * US_PER_HOUR + m * US_PER_MINUTE + s * US_PER_SECOND + us"

section \<open>Interval algebra (app/utils/windows.py)\<close>

record interval =
  iv_start :: instant
  iv_end :: instant

definition Interval :: "instant \<Rightarrow> instant \<Rightarrow> interval" where
  "Interval s e = \<lparr>iv_start = s, iv_end = e\<rparr>"

definition clip :: "interval \<Rightarrow> interval \<Rightarrow> interval option" where
  "clip a b =
     (let s = max (iv_start a) (iv_start b);
          e = min (iv_end a) (iv_end b)
      in if s \<ge> e then None else Some (Interval s e))"

text \<open>
  The loop of \<^verbatim>\<open>merge_overlaps\<close>: \<open>out\<close> is the output list built so far, whose
  last element is either replaced or followed by a new one.
\<close>

fun merge_loop :: "interval list \<Rightarrow> interval list \<Rightarrow> interval list" where
  "merge_loop out [] = out"
| "merge_loop out (iv # xs) =
     (if out = [] \<or> iv_start iv > iv_end (last out)
      then merge_loop (out @ [iv]) xs
      else merge_loop
             (butlast out @ [Interval (iv_start (last out)) (max (iv_end (last out)) (iv_end iv))])
             xs)"

definition merge_overlaps :: "interval list \<Rightarrow> interval list" where
  "merge_overlaps intervals = merge_loop [] (sort_key iv_start intervals)"

text \<open>
  The merge as the specification words it: sort by start, keep a running merged interval,
  extend it when the next interval starts at or before its end, otherwise close it and
  start a new group.
\<close>

fun merge_spec_go :: "interval \<Rightarrow> interval list \<Rightarrow> interval list" where
  "merge_spec_go cur [] = [cur]"
| "merge_spec_go cur (iv # xs) =
     (if iv_start iv \<le> iv_end cur
      then merge_spec_go (Interval (iv_start cur) (max (iv_end cur) (iv_end iv))) xs
      else cur # merge_spec_go iv xs)"

definition merge_spec :: "interval list \<Rightarrow> interval list" where
  "merge_spec intervals =
     (case sort_key iv_start intervals of [] \<Rightarrow> [] | x # xs \<Rightarrow> merge_spec_go x xs)"

text \<open>The set of instants (microsecond ticks) covered by a list of half-open intervals.\<close>

definition covered :: "interval list \<Rightarrow> instant set" where
  "covered ivs = (\<Union>iv\<in>set ivs. {iv_start iv ..< iv_end iv})"

definition duration :: "interval \<Rightarrow> timedelta" where
  "duration iv = iv_end iv - iv_start iv"

section \<open>Time zones\<close>

text \<open>
  \<^verbatim>\<open>zoneinfo.ZoneInfo\<close> is a library class.  A zone is represented by the two
  functions the code relies on: the UTC offset the zone assigns to a naive local
  wall-clock reading (with \<^verbatim>\<open>fold=0\<close>), used by
  \<^verbatim>\<open>x.replace(tzinfo=tz).astimezone(UTC)\<close>, and the UTC offset in effect at an
  absolute instant, used by \<^verbatim>\<open>x.astimezone(tz)\<close>.  A local wall-clock reading is
  the number of microseconds since 1970-01-01 00:00 on the local calendar.
\<close>

record zoneinfo =
  utcoffset_wall :: "int \<Rightarrow> timedelta"
  utcoffset_utc :: "instant \<Rightarrow> timedelta"

definition wall_to_utc :: "zoneinfo \<Rightarrow> int \<Rightarrow> instant" where
  "wall_to_utc tz w = w - utcoffset_wall tz w"

definition utc_to_wall :: "zoneinfo \<Rightarrow> instant \<Rightarrow> int" where
  "utc_to_wall tz u = u + utcoffset_utc tz u"

text \<open>\<^verbatim>\<open>dt.date()\<close> as a day number, and \<^verbatim>\<open>datetime.combine(date, time)\<close>.\<close>

definition date_of :: "int \<Rightarrow> int" where
  "date_of w = w div US_PER_DAY"

definition combine :: "int \<Rightarrow> time_of_day \<Rightarrow> int" where
  "combine d t = d * US_PER_DAY + t"

text \<open>\<^verbatim>\<open>dt.weekday()\<close>, Monday = 0; 1970-01-01 was a Thursday.\<close>

definition weekday :: "int \<Rightarrow> int" where
  "weekday w = (date_of w + 3) mod 7"

section \<open>Business windows (app/utils/windows.py)\<close>

definition local_window_to_utc ::
  "int \<Rightarrow> time_of_day \<Rightarrow> time_of_day \<Rightarrow> zoneinfo \<Rightarrow> interval list" where
  "local_window_to_utc day_local st et tz =
     (let base = date_of day_local;
          start_local = combine base st;
          end_same = combine base et
      in if st \<le> et
         then [Interval (wall_to_utc tz start_local) (wall_to_utc tz end_same)]
         else
           (let end_of_day_local = combine base (time_hmsu 23 59 59 999999);
                start_next_local = combine (base + 1) (time_hmsu 0 0 0 0);
                end_same_next = combine (base + 1) et
            in [Interval (wall_to_utc tz start_local) (wall_to_utc tz end_of_day_local),
                Interval (wall_to_utc tz start_next_local) (wall_to_utc tz end_same_next)]))"

text \<open>
  The weekly schedule is a Python dict from day of week to a list of
  \<open>(open, close)\<close> pairs; it is kept as an association list in insertion order with
  unique keys.
\<close>

type_synonym hours = "(int \<times> (time_of_day \<times> time_of_day) list) list"

definition hours_get :: "hours \<Rightarrow> int \<Rightarrow> (time_of_day \<times> time_of_day) list" where
  "hours_get h dow = (case map_of h dow of None \<Rightarrow> [] | Some l \<Rightarrow> l)"

text \<open>The two inner loops of \<^verbatim>\<open>business_windows_utc\<close> for one local day.\<close>

definition day_windows ::
  "hours \<Rightarrow> zoneinfo \<Rightarrow> instant \<Rightarrow> instant \<Rightarrow> int \<Rightarrow> interval list" where
  "day_windows h tz win_start_utc win_end_utc day =
     concat (map (\<lambda>(st, et).
                    List.map_filter (\<lambda>iv. clip iv (Interval win_start_utc win_end_utc))
                      (local_window_to_utc day st et tz))
                 (hours_get h (weekday day)))"

function day_loop ::
  "hours \<Rightarrow> zoneinfo \<Rightarrow> instant \<Rightarrow> instant \<Rightarrow> int \<Rightarrow> int \<Rightarrow> interval list \<Rightarrow> interval list"
  where
  "day_loop h tz win_start_utc win_end_utc end_local day out =
     (if day \<le> end_local
      then day_loop h tz win_start_utc win_end_utc end_local (day + US_PER_DAY)
             (out @ day_windows h tz win_start_utc win_end_utc day)
      else out)"
  by pat_completeness auto
termination
  by (relation "measure (\<lambda>(h, tz, ws, we, end_local, day, out). nat (end_local - day + 1))")
     (auto simp: US_PER_DAY_def)

datatype error = RuntimeError_NoObservations | ZoneInfoNotFoundError | ValueError

definition DEFAULT_TZ :: string where
  "DEFAULT_TZ = ''America/Chicago''"

text \<open>
  \<open>zone_lookup\<close> is the library constructor \<^verbatim>\<open>ZoneInfo(name)\<close>; \<open>None\<close> stands for
  its \<^verbatim>\<open>ZoneInfoNotFoundError\<close>.  \<^verbatim>\<open>tzname or "America/Chicago"\<close> takes the
  default for \<^verbatim>\<open>None\<close> and for the empty string; \<^verbatim>\<open>not hours_for_store\<close> holds
  for \<^verbatim>\<open>None\<close> and for the empty dict.
\<close>

definition business_windows_utc ::
  "(string \<Rightarrow> zoneinfo option) \<Rightarrow> string option \<Rightarrow> hours option \<Rightarrow> instant \<Rightarrow> instant
     \<Rightarrow> error + interval list" where
  "business_windows_utc zone_lookup tzname hours_for_store win_start_utc win_end_utc =
     (if win_start_utc \<ge> win_end_utc then Inr []
      else case hours_for_store of
        None \<Rightarrow> Inr [Interval win_start_utc win_end_utc]
      | Some h \<Rightarrow>
          if h = [] then Inr [Interval win_start_utc win_end_utc]
          else
            (case zone_lookup (case tzname of None \<Rightarrow> ''America/Chicago''
                               | Some n \<Rightarrow> if n = [] then ''America/Chicago'' else n) of
               None \<Rightarrow> Inl ZoneInfoNotFoundError
             | Some tz \<Rightarrow>
                 (let cur_local = utc_to_wall tz win_start_utc;
                      end_local = utc_to_wall tz win_end_utc;
                      day = date_of cur_local * US_PER_DAY
                  in Inr (merge_overlaps
                            (day_loop h tz win_start_utc win_end_utc end_local day [])))))"

section \<open>Database tables (app/models.py)\<close>

datatype StatusEnum = Active | Inactive

record store_status =
  ss_store_id :: string
  timestamp_utc :: instant
  status :: StatusEnum

record business_hours =
  bh_store_id :: string
  day_of_week :: int
  start_time_local :: string
  end_time_local :: string

record store_timezone =
  tz_store_id :: string
  timezone_str :: string

record database =
  store_status_rows :: "store_status list"
  business_hours_rows :: "business_hours list"
  store_timezone_rows :: "store_timezone list"

section \<open>Status segments (app/utils/segments.py)\<close>

record seg =
  seg_start :: instant
  seg_end :: instant
  seg_status :: StatusEnum

definition Seg :: "instant \<Rightarrow> instant \<Rightarrow> StatusEnum \<Rightarrow> seg" where
  "Seg s e st = \<lparr>seg_start = s, seg_end = e, seg_status = st\<rparr>"

text \<open>
  The two queries.  SQL leaves the order of rows with equal timestamps open; the model
  keeps table order among them (a stable sort), and the theorems below do not depend on
  that choice.
\<close>

definition rows_in_window ::
  "database \<Rightarrow> string \<Rightarrow> instant \<Rightarrow> instant \<Rightarrow> (instant \<times> StatusEnum) list" where
  "rows_in_window db sid start end' =
     map (\<lambda>p. (timestamp_utc p, status p))
       (sort_key timestamp_utc
          (filter (\<lambda>p. ss_store_id p = sid \<and> timestamp_utc p \<ge> start \<and> timestamp_utc p < end')
             (store_status_rows db)))"

definition prev_ping ::
  "database \<Rightarrow> string \<Rightarrow> instant \<Rightarrow> (instant \<times> StatusEnum) option" where
  "prev_ping db sid start =
     (case sort_key (\<lambda>p. - timestamp_utc p)
             (filter (\<lambda>p. ss_store_id p = sid \<and> timestamp_utc p < start) (store_status_rows db)) of
        [] \<Rightarrow> None
      | p # _ \<Rightarrow> Some (timestamp_utc p, status p))"

text \<open>
  The \<^verbatim>\<open>if prev / elif rows / else\<close> chain that picks the status the walk starts
  with; \<open>None\<close> is the \<^verbatim>\<open>else\<close> branch, which returns at once.
\<close>

definition initial_status ::
  "(instant \<times> StatusEnum) option \<Rightarrow> (instant \<times> StatusEnum) list \<Rightarrow> StatusEnum option" where
  "initial_status prev rows =
     (case prev of
        Some p \<Rightarrow> Some (snd p)
      | None \<Rightarrow> (case rows of r # _ \<Rightarrow> Some (snd r) | [] \<Rightarrow> None))"

text \<open>The \<^verbatim>\<open>for ts, st in rows\<close> loop on the state \<open>(cursor, cur_st, segs)\<close>, where \<open>cur_st\<close> is the source's \<^verbatim>\<open>curr\<close>.\<close>

fun seg_loop ::
  "instant \<Rightarrow> StatusEnum \<Rightarrow> seg list \<Rightarrow> (instant \<times> StatusEnum) list
     \<Rightarrow> instant \<times> StatusEnum \<times> seg list" where
  "seg_loop cursor cur_st segs [] = (cursor, cur_st, segs)"
| "seg_loop cursor cur_st segs ((ts, st) # rows) =
     seg_loop ts st (if ts > cursor then segs @ [Seg cursor ts cur_st] else segs) rows"

definition status_segments :: "database \<Rightarrow> string \<Rightarrow> instant \<Rightarrow> instant \<Rightarrow> seg list" where
  "status_segments db sid start end' =
     (if start \<ge> end' then []
      else
        (let rows = rows_in_window db sid start end';
             prev = prev_ping db sid start
         in case initial_status prev rows of
              None \<Rightarrow> [Seg start end' Inactive]
            | Some curr0 \<Rightarrow>
                (case seg_loop start curr0 [] rows of
                   (cursor, cur_st, segs) \<Rightarrow>
                     if cursor < end' then segs @ [Seg cursor end' cur_st] else segs)))"

section \<open>Report computation (app/services/compute.py)\<close>

text \<open>
  Library functions the service calls: \<^verbatim>\<open>ZoneInfo(name)\<close> and
  \<^verbatim>\<open>time.fromisoformat(s)\<close>; \<open>None\<close> stands for the exception each raises on an
  input it rejects.
\<close>

record library =
  ZoneInfo :: "string \<Rightarrow> zoneinfo option"
  fromisoformat :: "string \<Rightarrow> time_of_day option"

text \<open>
  \<^verbatim>\<open>select(func.max(StoreStatus.timestamp_utc))\<close> is \<^verbatim>\<open>None\<close> exactly on an empty
  table.  Instants are absolute here, so the conversion to an aware UTC value is the
  identity.
\<close>

definition max_now :: "database \<Rightarrow> error + instant" where
  "max_now db =
     (case store_status_rows db of
        [] \<Rightarrow> Inl RuntimeError_NoObservations
      | p # ps \<Rightarrow> Inr (Max (set (map timestamp_utc (p # ps)))))"

definition store_ids :: "database \<Rightarrow> string list" where
  "store_ids db =
     (let rows = remdups (map ss_store_id (store_status_rows db));
          tz_only = map tz_store_id (store_timezone_rows db)
      in sorted_list_of_set (set rows \<union> set tz_only))"

definition parse_time :: "library \<Rightarrow> string \<Rightarrow> time_of_day option" where
  "parse_time lib s = fromisoformat lib (if CHR '':'' \<in> set s then s else s @ '':00'')"

text \<open>\<^verbatim>\<open>out.setdefault(dow, []).append(x)\<close> on the association list.\<close>

fun setdefault_append ::
  "int \<Rightarrow> time_of_day \<times> time_of_day \<Rightarrow> hours \<Rightarrow> hours" where
  "setdefault_append dow x [] = [(dow, [x])]"
| "setdefault_append dow x ((k, l) # h) =
     (if k = dow then (k, l @ [x]) # h else (k, l) # setdefault_append dow x h)"

fun hours_map_loop :: "library \<Rightarrow> business_hours list \<Rightarrow> hours \<Rightarrow> error + hours" where
  "hours_map_loop lib [] out = Inr out"
| "hours_map_loop lib (r # rows) out =
     (case parse_time lib (start_time_local r) of
        None \<Rightarrow> Inl ValueError
      | Some st_t \<Rightarrow>
          (case parse_time lib (end_time_local r) of
             None \<Rightarrow> Inl ValueError
           | Some et_t \<Rightarrow>
               hours_map_loop lib rows (setdefault_append (day_of_week r) (st_t, et_t) out)))"

definition hours_map :: "library \<Rightarrow> database \<Rightarrow> string \<Rightarrow> error + hours" where
  "hours_map lib db sid =
     hours_map_loop lib (filter (\<lambda>r. bh_store_id r = sid) (business_hours_rows db)) []"

definition tz_for :: "database \<Rightarrow> string \<Rightarrow> string" where
  "tz_for db sid =
     (case find (\<lambda>r. tz_store_id r = sid) (store_timezone_rows db) of
        Some tz \<Rightarrow> timezone_str tz
      | None \<Rightarrow> DEFAULT_TZ)"

subsection \<open>Python floats\<close>

text \<open>
  A finite IEEE 754 double is represented by the real number it denotes.  \<open>fl\<close> rounds
  a real to the nearest double, a tie going to the even mantissa, as every float operation
  of the source does with its exact result.  \<open>expo x\<close> is the binary exponent of a
  positive \<open>x\<close> (\<open>2 ^ expo x \<le> x < 2 ^ (expo x + 1)\<close>), found by halving or doubling.
  The exponent range is not limited: overflow and subnormal numbers do not arise for the
  durations a \<^verbatim>\<open>datetime\<close> range can hold.
\<close>

definition round_half_even :: "real \<Rightarrow> int" where
  "round_half_even x =
     (let f = \<lfloor>x\<rfloor>; d = x - of_int f
      in if d < 1 / 2 then f else if d > 1 / 2 then f + 1 else if even f then f else f + 1)"

function expo_dn :: "real \<Rightarrow> int" where
  "expo_dn x = (if x \<ge> 2 then expo_dn (x / 2) + 1 else 0)"
  by pat_completeness auto
termination
proof (relation "measure (\<lambda>x. nat \<lfloor>x\<rfloor>)")
  show "wf (measure (\<lambda>x. nat \<lfloor>x\<rfloor>))" by simp
next
  fix x :: real assume a: "2 \<le> x"
  then have f2: "2 \<le> \<lfloor>x\<rfloor>" by linarith
  have "x / 2 < of_int \<lfloor>x\<rfloor>"
  proof -
    have aux: "x / 2 < f" if "x < f + 1" "2 \<le> f" for f :: real
      using that by linarith
    have "x < of_int \<lfloor>x\<rfloor> + 1" by linarith
    moreover have "(2::real) \<le> of_int \<lfloor>x\<rfloor>" using f2 by simp
    ultimately show ?thesis by (rule aux)
  qed
  then have "\<lfloor>x / 2\<rfloor> < \<lfloor>x\<rfloor>" by (simp only: floor_less_iff)
  with f2 show "(x / 2, x) \<in> measure (\<lambda>x. nat \<lfloor>x\<rfloor>)" by (simp add: nat_less_iff)
qed

function expo_up :: "real \<Rightarrow> int" where
  "expo_up x = (if 0 < x \<and> x < 1 then expo_up (2 * x) - 1 else 0)"
  by pat_completeness auto
termination
proof (relation "measure (\<lambda>x. nat \<lceil>1 / x\<rceil>)")
  show "wf (measure (\<lambda>x. nat \<lceil>1 / x\<rceil>))" by simp
next
  fix x :: real assume a: "0 < x \<and> x < 1"
  then have y: "1 / x > 1" by simp
  have h: "1 / (2 * x) = (1 / x) / 2" by simp
  have "\<lceil>(1 / x) / 2\<rceil> < \<lceil>1 / x\<rceil>"
  proof -
    have c2: "\<lceil>1 / x\<rceil> \<ge> 2" using y by linarith
    have "(1 / x) / 2 \<le> of_int (\<lceil>1 / x\<rceil> - 1)"
    proof -
      define t where "t = 1 / x"
      have "t \<le> of_int \<lceil>t\<rceil>" by (rule le_of_int_ceiling)
      moreover have "of_int \<lceil>t\<rceil> / (2::real) \<le> of_int (\<lceil>t\<rceil> - 1)"
        using c2 by (simp add: t_def)
      ultimately have "t / 2 \<le> of_int (\<lceil>t\<rceil> - 1)" by linarith
      then show ?thesis by (simp only: t_def)
    qed
    then have "\<lceil>(1 / x) / 2\<rceil> \<le> \<lceil>1 / x\<rceil> - 1" by (simp only: ceiling_le_iff)
    then show ?thesis by simp
  qed
  moreover have "0 < \<lceil>1 / x\<rceil>" using y by linarith
  ultimately show "(2 * x, x) \<in> measure (\<lambda>x. nat \<lceil>1 / x\<rceil>)"
    by (simp add: h nat_less_iff)
qed

definition expo :: "real \<Rightarrow> int" where
  "expo x = (if x \<ge> 1 then expo_dn x else expo_up x)"

definition fl :: "real \<Rightarrow> real" where
  "fl x =
     (if x = 0 then 0
      else (let e = expo \<bar>x\<bar>
            in of_int (round_half_even (x * 2 powi (52 - e))) * 2 powi (e - 52)))"

declare expo_dn.simps [simp del] expo_up.simps [simp del]

text \<open>
  \<^verbatim>\<open>_accumulate\<close>.  \<^verbatim>\<open>(end - start).total_seconds()\<close> is the correctly rounded
  quotient of the microseconds by \<open>10^6\<close>; dividing by \<^verbatim>\<open>60.0\<close> and adding to the
  running total each round once more.
\<close>

fun accumulate_segs :: "interval \<Rightarrow> seg list \<Rightarrow> real \<times> real \<Rightarrow> real \<times> real" where
  "accumulate_segs bw [] (active, inactive) = (active, inactive)"
| "accumulate_segs bw (s # segs) (active, inactive) =
     (let start = max (iv_start bw) (seg_start s);
          end' = min (iv_end bw) (seg_end s)
      in if start \<ge> end' then accumulate_segs bw segs (active, inactive)
         else
           (let mins = fl (fl (real_of_int (end' - start) / 1000000) / 60)
            in if seg_status s = Active
               then accumulate_segs bw segs (fl (active + mins), inactive)
               else accumulate_segs bw segs (active, fl (inactive + mins))))"

fun accumulate_loop :: "seg list \<Rightarrow> interval list \<Rightarrow> real \<times> real \<Rightarrow> real \<times> real" where
  "accumulate_loop segs [] acc = acc"
| "accumulate_loop segs (bw # biz) acc = accumulate_loop segs biz (accumulate_segs bw segs acc)"

definition accumulate :: "seg list \<Rightarrow> interval list \<Rightarrow> real \<times> real" where
  "accumulate segs biz = accumulate_loop segs biz (0, 0)"

text \<open>
  \<^verbatim>\<open>round(x, 2)\<close> on a float: the exact value of \<open>x\<close> is rounded to the nearest
  multiple of \<open>1/100\<close>, a tie going to the even one, and the result is converted back
  to the nearest double.
\<close>

definition round2 :: "real \<Rightarrow> real" where
  "round2 x = fl (of_int (round_half_even (x * 100)) / 100)"

record report_row =
  rr_store_id :: string
  uptime_last_hour :: real
  uptime_last_day :: real
  update_last_week :: real
  downtime_last_hour :: real
  downtime_last_day :: real
  downtime_last_week :: real

text \<open>
  The body of the \<^verbatim>\<open>for sid in stores\<close> loop: the row of one store.  The three
  ranges are the local variables \<^verbatim>\<open>last_hour\<close>, \<^verbatim>\<open>last_day\<close> and
  \<^verbatim>\<open>last_week\<close> of \<^verbatim>\<open>compute_and_write_csv\<close>.
\<close>

definition store_row ::
  "library \<Rightarrow> database \<Rightarrow> instant \<times> instant \<Rightarrow> instant \<times> instant \<Rightarrow> instant \<times> instant
     \<Rightarrow> string \<Rightarrow> error + report_row" where
  "store_row lib db last_hour last_day last_week sid =
     (let tzname = tz_for db sid
      in case hours_map lib db sid of
        Inl e \<Rightarrow> Inl e
      | Inr hours \<Rightarrow>
      (case business_windows_utc (ZoneInfo lib) (Some tzname) (Some hours)
              (fst last_hour) (snd last_hour) of
        Inl e \<Rightarrow> Inl e
      | Inr bw_h \<Rightarrow>
      (case business_windows_utc (ZoneInfo lib) (Some tzname) (Some hours)
              (fst last_day) (snd last_day) of
        Inl e \<Rightarrow> Inl e
      | Inr bw_d \<Rightarrow>
      (case business_windows_utc (ZoneInfo lib) (Some tzname) (Some hours)
              (fst last_week) (snd last_week) of
        Inl e \<Rightarrow> Inl e
      | Inr bw_w \<Rightarrow>
        (let seg_h = status_segments db sid (fst last_hour) (snd last_hour);
             seg_d = status_segments db sid (fst last_day) (snd last_day);
             seg_w = status_segments db sid (fst last_week) (snd last_week);
             amih = accumulate seg_h bw_h;
             ahid = accumulate seg_d bw_d;
             ahiw = accumulate seg_w bw_w
         in Inr \<lparr>rr_store_id = sid,
                 uptime_last_hour = round2 (fst amih),
                 uptime_last_day = round2 (fl (fst ahid / 60)),
                 update_last_week = round2 (fl (fst ahiw / 60)),
                 downtime_last_hour = round2 (snd amih),
                 downtime_last_day = round2 (fl (snd ahid / 60)),
                 downtime_last_week = round2 (fl (snd ahiw / 60))\<rparr>)))))"

fun rows_loop ::
  "library \<Rightarrow> database \<Rightarrow> instant \<times> instant \<Rightarrow> instant \<times> instant \<Rightarrow> instant \<times> instant
     \<Rightarrow> string list \<Rightarrow> report_row list \<Rightarrow> error + report_row list"
  where
  "rows_loop lib db last_hour last_day last_week [] rows = Inr rows"
| "rows_loop lib db last_hour last_day last_week (sid # stores) rows =
     (case store_row lib db last_hour last_day last_week sid of
        Inl e \<Rightarrow> Inl e
      | Inr r \<Rightarrow> rows_loop lib db last_hour last_day last_week stores (rows @ [r]))"

text \<open>
  \<^verbatim>\<open>compute_and_write_csv\<close>: the result is the list of rows handed to the CSV
  writer, or the exception that ended the run.  \<^verbatim>\<open>timedelta(hours=1)\<close> is
  \<open>US_PER_HOUR\<close> microseconds, \<^verbatim>\<open>timedelta(days=1)\<close> is \<open>US_PER_DAY\<close>.
\<close>

definition compute_and_write_csv :: "library \<Rightarrow> database \<Rightarrow> error + report_row list" where
  "compute_and_write_csv lib db =
     (case max_now db of
        Inl e \<Rightarrow> Inl e
      | Inr now \<Rightarrow>
          (let last_hour = (now - US_PER_HOUR, now);
               last_day = (now - US_PER_DAY, now);
               last_week = (now - 7 * US_PER_DAY, now);
               stores = store_ids db
           in rows_loop lib db last_hour last_day last_week stores []))"

section \<open>Auxiliary notions for the properties\<close>

text \<open>
  A list of segments is a chain from \<open>a\<close> to \<open>b\<close> when it starts at \<open>a\<close>, each
  segment is non-empty and ends where the next one starts, and the last one ends at
  \<open>b\<close>.
\<close>

fun seg_chain :: "instant \<Rightarrow> seg list \<Rightarrow> instant \<Rightarrow> bool" where
  "seg_chain a [] b = (a = b)"
| "seg_chain a (s # segs) b =
     (seg_start s = a \<and> seg_start s < seg_end s \<and> seg_chain (seg_end s) segs b)"

text \<open>
  The known stores as the claim words them: stores with a ping, with a timezone record,
  or with a schedule record.
\<close>

definition known_stores_claimed :: "database \<Rightarrow> string set" where
  "known_stores_claimed db =
     ss_store_id ` set (store_status_rows db)
     \<union> tz_store_id ` set (store_timezone_rows db)
     \<union> bh_store_id ` set (business_hours_rows db)"

text \<open>
  Schedule data the libraries accept: every stored time string parses, and the default
  zone name and every stored zone name resolve.
\<close>

definition wellformed_data :: "library \<Rightarrow> database \<Rightarrow> bool" where
  "wellformed_data lib db \<longleftrightarrow>
     (\<forall>r\<in>set (business_hours_rows db).
        parse_time lib (start_time_local r) \<noteq> None \<and> parse_time lib (end_time_local r) \<noteq> None)
     \<and> ZoneInfo lib ''America/Chicago'' \<noteq> None
     \<and> (\<forall>r\<in>set (store_timezone_rows db). ZoneInfo lib (timezone_str r) \<noteq> None)"

text \<open>A small database used to run the functions on concrete inputs.\<close>

definition db1 :: database where
  "db1 = \<lparr>store_status_rows =
            [\<lparr>ss_store_id = ''a'', timestamp_utc = 30, status = Inactive\<rparr>,
             \<lparr>ss_store_id = ''a'', timestamp_utc = 0, status = Active\<rparr>,
             \<lparr>ss_store_id = ''b'', timestamp_utc = 45, status = Active\<rparr>],
          business_hours_rows = [], store_timezone_rows = []\<rparr>"

text \<open>The zone \<^verbatim>\<open>ZoneInfo("UTC")\<close>: offset zero throughout.\<close>

definition UTC :: zoneinfo where
  "UTC = \<lparr>utcoffset_wall = (\<lambda>w. 0), utcoffset_utc = (\<lambda>u. 0)\<rparr>"

text \<open>The length of the overlap of \<open>[l1, h1)\<close> and \<open>[l2, h2)\<close>, zero when they are disjoint.\<close>

definition overlap :: "instant \<Rightarrow> instant \<Rightarrow> instant \<Rightarrow> instant \<Rightarrow> timedelta" where
  "overlap l1 h1 l2 h2 = max 0 (min h1 h2 - max l1 l2)"

definition db2 :: database where
  "db2 = \<lparr>store_status_rows = [\<lparr>ss_store_id = ''a'', timestamp_utc = 0, status = Active\<rparr>],
          business_hours_rows =
            [\<lparr>bh_store_id = ''b'', day_of_week = 0,
              start_time_local = ''09:00:00'', end_time_local = ''12:00:00''\<rparr>],
          store_timezone_rows = []\<rparr>"

definition db3 :: database where
  "db3 = \<lparr>store_status_rows =
            [\<lparr>ss_store_id = ''b'', timestamp_utc = 0, status = Active\<rparr>,
             \<lparr>ss_store_id = ''a'', timestamp_utc = 0, status = Active\<rparr>],
          business_hours_rows = [],
          store_timezone_rows = [\<lparr>tz_store_id = ''c'', timezone_str = ''UTC''\<rparr>,
                                 \<lparr>tz_store_id = ''a'', timezone_str = ''UTC''\<rparr>]\<rparr>"

text \<open>A library that knows every zone name as UTC and reads every time string as midnight.\<close>

definition lib0 :: library where
  "lib0 = \<lparr>ZoneInfo = (\<lambda>n. Some UTC), fromisoformat = (\<lambda>s. Some 0)\<rparr>"

definition db0 :: database where
  "db0 = \<lparr>store_status_rows = [], business_hours_rows = [],
          store_timezone_rows = [\<lparr>tz_store_id = ''a'', timezone_str = ''UTC''\<rparr>]\<rparr>"

text \<open>
  The row of a store that is open around the clock and has no ping before \<open>now\<close>:
  no uptime, and downtime for the whole hour, day and week.
\<close>

definition row0 :: "string \<Rightarrow> report_row" where
  "row0 sid = \<lparr>rr_store_id = sid, uptime_last_hour = 0, uptime_last_day = 0, update_last_week = 0,
      downtime_last_hour = 60, downtime_last_day = 24, downtime_last_week = 168\<rparr>"

text \<open>
  Rounding errors.  \<open>unit_roundoff\<close> is the largest relative error of one rounding to a
  double; \<open>close_to j X x\<close> says that \<open>x\<close> is the exact value \<open>X\<close> up to \<open>j\<close>
  roundings.  \<open>overlap_minutes\<close> is the exact length in minutes of the overlap of a
  window and a segment, and \<open>exact_minutes\<close> adds these over the active (or the
  inactive) segments.
\<close>

definition unit_roundoff :: real where
  "unit_roundoff = 1 / 2 ^ 53"

definition overlap_minutes :: "interval \<Rightarrow> seg \<Rightarrow> real" where
  "overlap_minutes bw s =
     real_of_int (overlap (iv_start bw) (iv_end bw) (seg_start s) (seg_end s)) / 60000000"

definition exact_minutes :: "bool \<Rightarrow> interval \<Rightarrow> seg list \<Rightarrow> real" where
  "exact_minutes act bw segs =
     (\<Sum>s\<leftarrow>segs. if (seg_status s = Active) = act then overlap_minutes bw s else 0)"

definition close_to :: "nat \<Rightarrow> real \<Rightarrow> real \<Rightarrow> bool" where
  "close_to j X x \<longleftrightarrow>
     X * (1 - unit_roundoff) ^ j \<le> x \<and> x \<le> X * (1 + unit_roundoff) ^ j"

section \<open>Interval algebra: properties\<close>

lemma Interval_sel [simp]: "iv_start (Interval s e) = s" "iv_end (Interval s e) = e"
  by (simp_all add: Interval_def)

lemma clip_commute: "clip a b = clip b a"
  by (simp add: clip_def max.commute min.commute)

text \<open>
  Claim C4.  \<^verbatim>\<open>clip\<close> is symmetric; a result, when present, lies inside both
  arguments (and is the intersection of their bounds); and the result is absent exactly
  when the intersection's start is not before the intersection's end, which covers
  disjoint intervals and intervals that only touch at a boundary.
\<close>

theorem clip_symmetric_contained:
  "clip a b = clip b a
   \<and> (\<forall>r. clip a b = Some r \<longrightarrow>
         iv_start a \<le> iv_start r \<and> iv_end r \<le> iv_end a
       \<and> iv_start b \<le> iv_start r \<and> iv_end r \<le> iv_end b
       \<and> iv_start r < iv_end r
       \<and> iv_start r = max (iv_start a) (iv_start b)
       \<and> iv_end r = min (iv_end a) (iv_end b))
   \<and> (max (iv_start a) (iv_start b) \<ge> min (iv_end a) (iv_end b) \<longrightarrow> clip a b = None)"
proof (intro conjI allI impI)
  show "clip a b = clip b a" by (rule clip_commute)
next
  fix r assume r: "clip a b = Some r"
  then have lt: "max (iv_start a) (iv_start b) < min (iv_end a) (iv_end b)"
    and req: "r = Interval (max (iv_start a) (iv_start b)) (min (iv_end a) (iv_end b))"
    by (auto simp: clip_def Let_def split: if_splits)
  from req show "iv_start r = max (iv_start a) (iv_start b)" by (simp add: Interval_def)
  from req show "iv_end r = min (iv_end a) (iv_end b)" by (simp add: Interval_def)
  from req show "iv_start a \<le> iv_start r" by (simp add: Interval_def)
  from req show "iv_start b \<le> iv_start r" by (simp add: Interval_def)
  from req show "iv_end r \<le> iv_end a" by (simp add: Interval_def)
  from req show "iv_end r \<le> iv_end b" by (simp add: Interval_def)
  from req lt show "iv_start r < iv_end r" by (simp add: Interval_def)
next
  assume "max (iv_start a) (iv_start b) \<ge> min (iv_end a) (iv_end b)"
  then show "clip a b = None" by (simp add: clip_def Let_def)
qed

theorem clip_symmetric_contained_witness:
  "clip (Interval 10 12) (Interval 11 13) = Some (Interval 11 12)
   \<and> clip (Interval 11 13) (Interval 10 12) = Some (Interval 11 12)
   \<and> max (iv_start (Interval 10 12)) (iv_start (Interval 12 13))
       \<ge> min (iv_end (Interval 10 12)) (iv_end (Interval 12 13))
   \<and> clip (Interval 10 12) (Interval 12 13) = None"
  using clip_symmetric_contained [of "Interval 10 12" "Interval 11 13"]
        clip_symmetric_contained [of "Interval 10 12" "Interval 12 13"]
  by (simp add: clip_def Interval_def)

section \<open>Merge: properties\<close>

lemma merge_loop_snoc:
  "merge_loop (pre @ [cur]) xs = pre @ merge_spec_go cur xs"
proof (induction xs arbitrary: pre cur)
  case Nil show ?case by simp
next
  case (Cons iv xs)
  show ?case
  proof (cases "iv_start iv \<le> iv_end cur")
    case True
    then show ?thesis using Cons.IH [of pre] by simp
  next
    case False
    have "merge_loop ((pre @ [cur]) @ [iv]) xs = (pre @ [cur]) @ merge_spec_go iv xs"
      by (rule Cons.IH)
    with False show ?thesis by simp
  qed
qed

lemma merge_overlaps_eq_spec: "merge_overlaps ivs = merge_spec ivs"
proof (cases "sort_key iv_start ivs")
  case Nil
  then show ?thesis by (simp add: merge_overlaps_def merge_spec_def)
next
  case (Cons x xs)
  have "merge_loop [] (x # xs) = merge_loop ([] @ [x]) xs" by simp
  also have "\<dots> = [] @ merge_spec_go x xs" by (rule merge_loop_snoc)
  finally show ?thesis using Cons by (simp add: merge_overlaps_def merge_spec_def)
qed

lemma go_hd: "\<exists>c rest. merge_spec_go cur xs = c # rest \<and> iv_start c = iv_start cur"
proof (induction xs arbitrary: cur)
  case Nil show ?case by simp
next
  case (Cons iv xs)
  show ?case
  proof (cases "iv_start iv \<le> iv_end cur")
    case True
    with Cons.IH [of "Interval (iv_start cur) (max (iv_end cur) (iv_end iv))"]
    show ?thesis by simp
  next
    case False
    then show ?thesis by simp
  qed
qed

lemma go_starts: "iv_start ` set (merge_spec_go cur xs) \<subseteq> iv_start ` set (cur # xs)"
proof (induction xs arbitrary: cur)
  case Nil show ?case by simp
next
  case (Cons iv xs)
  show ?case
  proof (cases "iv_start iv \<le> iv_end cur")
    case True
    have "iv_start ` set (merge_spec_go (Interval (iv_start cur) (max (iv_end cur) (iv_end iv))) xs)
          \<subseteq> iv_start ` set (Interval (iv_start cur) (max (iv_end cur) (iv_end iv)) # xs)"
      by (rule Cons.IH)
    with True show ?thesis by auto
  next
    case False
    with Cons.IH [of iv] show ?thesis by auto
  qed
qed

lemma go_sorted:
  "sorted (map iv_start (cur # xs)) \<Longrightarrow> sorted (map iv_start (merge_spec_go cur xs))"
proof (induction xs arbitrary: cur)
  case Nil show ?case by simp
next
  case (Cons iv xs)
  show ?case
  proof (cases "iv_start iv \<le> iv_end cur")
    case True
    from Cons.prems have "sorted (map iv_start (Interval (iv_start cur) (max (iv_end cur) (iv_end iv)) # xs))"
      by auto
    from Cons.IH [OF this] True show ?thesis by simp
  next
    case False
    from Cons.prems have s: "sorted (map iv_start (iv # xs))" by simp
    have "\<forall>y\<in>set (merge_spec_go iv xs). iv_start cur \<le> iv_start y"
    proof
      fix y assume "y \<in> set (merge_spec_go iv xs)"
      then have "iv_start y \<in> iv_start ` set (iv # xs)" using go_starts [of iv xs] by blast
      with Cons.prems show "iv_start cur \<le> iv_start y" by auto
    qed
    with Cons.IH [OF s] False show ?thesis by simp
  qed
qed

lemma go_gapped:
  "successively (\<lambda>a b. iv_end a < iv_start b) (merge_spec_go cur xs)"
proof (induction xs arbitrary: cur)
  case Nil show ?case by simp
next
  case (Cons iv xs)
  show ?case
  proof (cases "iv_start iv \<le> iv_end cur")
    case True
    with Cons.IH show ?thesis by simp
  next
    case False
    obtain c rest where c: "merge_spec_go iv xs = c # rest" "iv_start c = iv_start iv"
      using go_hd by blast
    with Cons.IH [of iv] False show ?thesis by simp
  qed
qed

lemma go_covered:
  "sorted (map iv_start (cur # xs)) \<Longrightarrow> covered (merge_spec_go cur xs) = covered (cur # xs)"
proof (induction xs arbitrary: cur)
  case Nil show ?case by simp
next
  case (Cons iv xs)
  from Cons.prems have le: "iv_start cur \<le> iv_start iv" by simp
  show ?case
  proof (cases "iv_start iv \<le> iv_end cur")
    case True
    let ?m = "Interval (iv_start cur) (max (iv_end cur) (iv_end iv))"
    from Cons.prems have "sorted (map iv_start (?m # xs))"
      by auto
    from Cons.IH [OF this] have "covered (merge_spec_go ?m xs) = covered (?m # xs)" .
    moreover have "{iv_start ?m ..< iv_end ?m} = {iv_start cur ..< iv_end cur} \<union> {iv_start iv ..< iv_end iv}"
      using le True by auto
    ultimately show ?thesis using True by (simp add: covered_def Un_assoc)
  next
    case False
    from Cons.prems have s: "sorted (map iv_start (iv # xs))" by simp
    from Cons.IH [OF s] False show ?thesis by (simp add: covered_def)
  qed
qed

lemma go_wf:
  "\<forall>iv\<in>set (cur # xs). iv_start iv \<le> iv_end iv \<Longrightarrow>
   \<forall>iv\<in>set (merge_spec_go cur xs). iv_start iv \<le> iv_end iv"
proof (induction xs arbitrary: cur)
  case Nil then show ?case by simp
next
  case (Cons iv xs)
  show ?case
  proof (cases "iv_start iv \<le> iv_end cur")
    case True
    let ?m = "Interval (iv_start cur) (max (iv_end cur) (iv_end iv))"
    from Cons.prems have "\<forall>z\<in>set (?m # xs). iv_start z \<le> iv_end z" by auto
    from Cons.IH [OF this] True show ?thesis by simp
  next
    case False
    from Cons.prems have "\<forall>z\<in>set (iv # xs). iv_start z \<le> iv_end z" by auto
    from Cons.IH [OF this] False Cons.prems show ?thesis by simp
  qed
qed

lemma gapped_pairwise:
  "successively (\<lambda>a b. iv_end a < iv_start b) ys \<Longrightarrow> \<forall>iv\<in>set ys. iv_start iv \<le> iv_end iv \<Longrightarrow>
   sorted_wrt (\<lambda>a b. iv_end a < iv_start b) ys"
proof (induction ys rule: induct_list012)
  case 1 show ?case by simp
next
  case (2 x) show ?case by simp
next
  case (3 x y zs)
  from 3 have t: "sorted_wrt (\<lambda>a b. iv_end a < iv_start b) (y # zs)" by simp
  from 3 have xy: "iv_end x < iv_start y" by simp
  from 3 have wy: "iv_start y \<le> iv_end y" by simp
  have "\<forall>z\<in>set zs. iv_end x < iv_start z"
    using t xy wy by auto
  with t xy show ?case by simp
qed

lemma covered_Cons: "covered (x # xs) = {iv_start x ..< iv_end x} \<union> covered xs"
  by (simp add: covered_def)

lemma finite_covered: "finite (covered xs)"
  by (simp add: covered_def)

lemma pairwise_duration:
  "sorted_wrt (\<lambda>a b. iv_end a < iv_start b) ys \<Longrightarrow> \<forall>iv\<in>set ys. iv_start iv \<le> iv_end iv \<Longrightarrow>
   sum_list (map duration ys) = int (card (covered ys))"
proof (induction ys)
  case Nil show ?case by (simp add: covered_def)
next
  case (Cons x ys)
  have disj: "{iv_start x ..< iv_end x} \<inter> covered ys = {}"
  proof -
    { fix t assume t: "t \<in> {iv_start x ..< iv_end x}" "t \<in> covered ys"
      then obtain z where z: "z \<in> set ys" "iv_start z \<le> t" by (auto simp: covered_def)
      with Cons.prems(1) have "iv_end x < iv_start z" by simp
      with t z have False by simp }
    then show ?thesis by blast
  qed
  have "card (covered (x # ys)) = card {iv_start x ..< iv_end x} + card (covered ys)"
    unfolding covered_Cons by (rule card_Un_disjoint) (simp_all add: finite_covered disj)
  moreover have "int (card {iv_start x ..< iv_end x}) = duration x"
    using Cons.prems(2) by (simp add: duration_def)
  moreover have "sum_list (map duration ys) = int (card (covered ys))"
    using Cons by simp
  ultimately show ?case by simp
qed

lemma successively_nth_Suc:
  "successively P ys \<Longrightarrow> \<forall>i. Suc i < length ys \<longrightarrow> P (ys ! i) (ys ! Suc i)"
proof (induction ys rule: induct_list012)
  case 1 show ?case by simp
next
  case (2 x) show ?case by simp
next
  case (3 x y zs)
  show ?case
  proof (intro allI impI)
    fix i assume i: "Suc i < length (x # y # zs)"
    show "P ((x # y # zs) ! i) ((x # y # zs) ! Suc i)"
    proof (cases i)
      case 0 with 3 show ?thesis by simp
    next
      case (Suc k)
      with i 3 show ?thesis by simp
    qed
  qed
qed

lemma covered_sort: "covered (sort_key iv_start ivs) = covered ivs"
  by (simp add: covered_def)

text \<open>
  Claim C5.  \<^verbatim>\<open>merge_overlaps\<close> is the merge the specification describes (sort by
  start, extend the running interval exactly when the next start is at or before its
  end); its output is sorted by start; consecutive results are separated by a strictly
  positive gap; it covers exactly the instants the inputs cover; and when every input has
  \<open>start \<le> end\<close>, the results are pairwise disjoint and their durations add up to the
  measure (the number of microsecond ticks) of the union of the inputs.
\<close>

theorem merge_overlaps_correct:
  "merge_overlaps ivs = merge_spec ivs
   \<and> sorted (map iv_start (merge_overlaps ivs))
   \<and> (\<forall>i. Suc i < length (merge_overlaps ivs) \<longrightarrow>
          iv_end (merge_overlaps ivs ! i) < iv_start (merge_overlaps ivs ! Suc i))
   \<and> covered (merge_overlaps ivs) = covered ivs
   \<and> ((\<forall>iv\<in>set ivs. iv_start iv \<le> iv_end iv) \<longrightarrow>
        (\<forall>iv\<in>set (merge_overlaps ivs). iv_start iv \<le> iv_end iv)
      \<and> (\<forall>i j. i < j \<and> j < length (merge_overlaps ivs) \<longrightarrow>
            iv_end (merge_overlaps ivs ! i) < iv_start (merge_overlaps ivs ! j))
      \<and> sum_list (map duration (merge_overlaps ivs)) = int (card (covered ivs)))"
proof (cases "sort_key iv_start ivs")
  case Nil
  then have "ivs = []" by (metis length_sort length_0_conv)
  then show ?thesis by (simp add: merge_overlaps_def merge_spec_def covered_def)
next
  case (Cons x xs)
  let ?out = "merge_overlaps ivs"
  have eq: "?out = merge_spec ivs" by (rule merge_overlaps_eq_spec)
  have out: "?out = merge_spec_go x xs" using Cons by (simp add: eq merge_spec_def)
  have srt: "sorted (map iv_start (x # xs))" using Cons sorted_sort_key [of iv_start ivs] by simp
  have s1: "sorted (map iv_start ?out)" unfolding out by (rule go_sorted [OF srt])
  have g: "successively (\<lambda>a b. iv_end a < iv_start b) ?out" unfolding out by (rule go_gapped)
  have s2: "\<forall>i. Suc i < length ?out \<longrightarrow> iv_end (?out ! i) < iv_start (?out ! Suc i)"
    using g by (rule successively_nth_Suc)
  have cov: "covered ?out = covered ivs"
    unfolding out using go_covered [OF srt] Cons covered_sort [of ivs] by simp
  have rest: "(\<forall>iv\<in>set ?out. iv_start iv \<le> iv_end iv)
      \<and> (\<forall>i j. i < j \<and> j < length ?out \<longrightarrow> iv_end (?out ! i) < iv_start (?out ! j))
      \<and> sum_list (map duration ?out) = int (card (covered ivs))"
    if wf: "\<forall>iv\<in>set ivs. iv_start iv \<le> iv_end iv"
  proof -
    have "set (x # xs) = set ivs" using Cons set_sort [of iv_start ivs] by simp
    with wf have "\<forall>iv\<in>set (x # xs). iv_start iv \<le> iv_end iv" by simp
    then have w: "\<forall>iv\<in>set ?out. iv_start iv \<le> iv_end iv" unfolding out by (rule go_wf)
    have pw: "sorted_wrt (\<lambda>a b. iv_end a < iv_start b) ?out" by (rule gapped_pairwise [OF g w])
    have d: "sum_list (map duration ?out) = int (card (covered ivs))"
      using pairwise_duration [OF pw w] cov by simp
    from pw have "\<forall>i j. i < j \<and> j < length ?out \<longrightarrow> iv_end (?out ! i) < iv_start (?out ! j)"
      by (simp add: sorted_wrt_iff_nth_less)
    with w d show ?thesis by blast
  qed
  from eq s1 s2 cov rest show ?thesis by blast
qed

theorem merge_overlaps_correct_witness:
  "list_all (\<lambda>iv. iv_start iv \<le> iv_end iv) [Interval 5 8, Interval 1 3, Interval 3 4, Interval 7 10]
   \<and> sum_list (map duration (merge_overlaps [Interval 5 8, Interval 1 3, Interval 3 4, Interval 7 10]))
       = 8
   \<and> merge_overlaps [Interval 5 8, Interval 1 3, Interval 3 4, Interval 7 10]
       = [Interval 1 4, Interval 5 10]
   \<and> merge_spec [Interval 5 8, Interval 1 3, Interval 3 4, Interval 7 10]
       = [Interval 1 4, Interval 5 10]
   \<and> int (card (covered [Interval 5 8, Interval 1 3, Interval 3 4, Interval 7 10])) = 8"
  using merge_overlaps_correct [of "[Interval 5 8, Interval 1 3, Interval 3 4, Interval 7 10]"]
  by (simp add: merge_overlaps_def merge_spec_def duration_def)

section \<open>Status segments: properties\<close>

lemma Seg_sel [simp]:
  "seg_start (Seg s e st) = s" "seg_end (Seg s e st) = e" "seg_status (Seg s e st) = st"
  by (simp_all add: Seg_def)

lemma seg_chain_append:
  "seg_chain a (xs @ ys) c \<longleftrightarrow> (\<exists>b. seg_chain a xs b \<and> seg_chain b ys c)"
  by (induction xs arbitrary: a) auto

lemma seg_chain_snoc:
  "seg_chain a xs b \<Longrightarrow> b < c \<Longrightarrow> seg_chain a (xs @ [Seg b c st]) c"
  by (auto simp: seg_chain_append)

lemma seg_chain_le: "seg_chain a xs b \<Longrightarrow> a \<le> b"
  by (induction xs arbitrary: a) force+

lemma seg_chain_nonempty: "seg_chain a xs b \<Longrightarrow> a < b \<Longrightarrow> xs \<noteq> []"
  by (cases xs) auto

lemma seg_chain_hd: "seg_chain a xs b \<Longrightarrow> xs \<noteq> [] \<Longrightarrow> seg_start (hd xs) = a"
  by (cases xs) auto

lemma seg_chain_last: "seg_chain a xs b \<Longrightarrow> xs \<noteq> [] \<Longrightarrow> seg_end (last xs) = b"
  by (induction xs arbitrary: a) (auto split: if_splits)

lemma seg_chain_pos: "seg_chain a xs b \<Longrightarrow> \<forall>s\<in>set xs. seg_start s < seg_end s"
  by (induction xs arbitrary: a) auto

lemma seg_chain_nth:
  "seg_chain a xs b \<Longrightarrow> Suc i < length xs \<Longrightarrow> seg_end (xs ! i) = seg_start (xs ! Suc i)"
proof (induction xs arbitrary: a i)
  case Nil then show ?case by simp
next
  case (Cons s xs)
  from Cons.prems have ch: "seg_chain (seg_end s) xs b" by simp
  show ?case
  proof (cases i)
    case 0
    with Cons.prems have "xs \<noteq> []" by auto
    with ch have "seg_start (hd xs) = seg_end s" by (simp add: seg_chain_hd)
    with 0 \<open>xs \<noteq> []\<close> show ?thesis by (simp add: hd_conv_nth)
  next
    case (Suc k)
    with Cons.prems have "Suc k < length xs" by simp
    from Cons.IH [OF ch this] Suc show ?thesis by simp
  qed
qed

lemma seg_chain_sum:
  "seg_chain a xs b \<Longrightarrow> (\<Sum>s\<leftarrow>xs. seg_end s - seg_start s) = b - a"
proof (induction xs arbitrary: a)
  case Nil then show ?case by simp
next
  case (Cons s xs)
  then have "(\<Sum>s\<leftarrow>xs. seg_end s - seg_start s) = b - seg_end s" by simp
  with Cons.prems show ?case by simp
qed

lemma seg_chain_cover:
  "seg_chain a xs b \<Longrightarrow> (\<Union>s\<in>set xs. {seg_start s ..< seg_end s}) = {a ..< b}"
proof (induction xs arbitrary: a)
  case Nil then show ?case by simp
next
  case (Cons s xs)
  from Cons.prems have ch: "seg_chain (seg_end s) xs b" and sa: "seg_start s = a"
    and lt: "a < seg_end s" by auto
  from seg_chain_le [OF ch] have le: "seg_end s \<le> b" .
  have "{a ..< seg_end s} \<union> {seg_end s ..< b} = {a ..< b}" using lt le by auto
  with Cons.IH [OF ch] sa show ?case by simp
qed

lemma seg_loop_chain:
  assumes "seg_chain a segs cursor" "sorted (map fst rows)" "\<forall>r\<in>set rows. cursor \<le> fst r"
    and "seg_loop cursor c segs rows = (cursor', c', segs')"
  shows "seg_chain a segs' cursor' \<and> cursor' \<in> insert cursor (fst ` set rows)"
  using assms
proof (induction rows arbitrary: cursor c segs)
  case Nil then show ?case by simp
next
  case (Cons r rows)
  obtain ts st where r: "r = (ts, st)" by (cases r)
  let ?segs = "if ts > cursor then segs @ [Seg cursor ts c] else segs"
  from Cons.prems r have le: "cursor \<le> ts" by simp
  have ch: "seg_chain a ?segs ts"
  proof (cases "ts > cursor")
    case True
    with Cons.prems(1) show ?thesis by (simp add: seg_chain_snoc)
  next
    case False
    with le have "ts = cursor" by simp
    with Cons.prems(1) False show ?thesis by simp
  qed
  from Cons.prems r have s: "sorted (map fst rows)" and ge: "\<forall>q\<in>set rows. ts \<le> fst q"
    by auto
  from Cons.prems(4) r have "seg_loop ts st ?segs rows = (cursor', c', segs')" by simp
  from Cons.IH [OF ch s ge this] r show ?case by auto
qed

lemma rows_in_window_sorted: "sorted (map fst (rows_in_window db sid start end'))"
proof -
  have "map fst (rows_in_window db sid start end') =
        map timestamp_utc (sort_key timestamp_utc
          (filter (\<lambda>p. ss_store_id p = sid \<and> timestamp_utc p \<ge> start \<and> timestamp_utc p < end')
             (store_status_rows db)))"
    by (simp add: rows_in_window_def comp_def)
  then show ?thesis by (simp only: sorted_sort_key)
qed

lemma rows_in_window_range:
  "r \<in> set (rows_in_window db sid start end') \<Longrightarrow> start \<le> fst r \<and> fst r < end'"
  by (auto simp: rows_in_window_def)

lemma status_segments_chain:
  assumes "start < end'"
  shows "seg_chain start (status_segments db sid start end') end'"
proof (cases "initial_status (prev_ping db sid start) (rows_in_window db sid start end')")
  case None
  with assms show ?thesis by (simp add: status_segments_def)
next
  case (Some c0)
  let ?rows = "rows_in_window db sid start end'"
  obtain cursor c segs where l: "seg_loop start c0 [] ?rows = (cursor, c, segs)"
    by (cases "seg_loop start c0 [] ?rows") auto
  have "seg_chain start [] start" by simp
  moreover have "\<forall>r\<in>set ?rows. start \<le> fst r" using rows_in_window_range by blast
  ultimately have ch: "seg_chain start segs cursor" and mem: "cursor \<in> insert start (fst ` set ?rows)"
    using seg_loop_chain [OF _ rows_in_window_sorted _ l] by blast+
  from mem assms have lt: "cursor < end'" using rows_in_window_range by auto
  have "status_segments db sid start end' = segs @ [Seg cursor end' c]"
    using assms Some l lt by (simp add: status_segments_def)
  with ch lt show ?thesis by (simp add: seg_chain_snoc)
qed

text \<open>
  Claim C1.  For a range with \<open>start < end\<close> the segments partition \<open>[start, end)\<close>:
  the list is not empty, the first segment starts at \<open>start\<close>, the last ends at
  \<open>end\<close>, each segment ends where the next starts, every segment is non-empty, the
  segments cover exactly the instants of the range, and their durations add up to
  \<open>end - start\<close>.
\<close>

theorem status_segments_partition:
  assumes "start < end'"
  shows "status_segments db sid start end' \<noteq> []
    \<and> seg_start (hd (status_segments db sid start end')) = start
    \<and> seg_end (last (status_segments db sid start end')) = end'
    \<and> (\<forall>i. Suc i < length (status_segments db sid start end') \<longrightarrow>
          seg_end (status_segments db sid start end' ! i)
            = seg_start (status_segments db sid start end' ! Suc i))
    \<and> (\<forall>s\<in>set (status_segments db sid start end'). seg_start s < seg_end s)
    \<and> (\<Union>s\<in>set (status_segments db sid start end'). {seg_start s ..< seg_end s}) = {start ..< end'}
    \<and> (\<Sum>s\<leftarrow>status_segments db sid start end'. seg_end s - seg_start s) = end' - start"
proof -
  let ?segs = "status_segments db sid start end'"
  have ch: "seg_chain start ?segs end'" by (rule status_segments_chain [OF assms])
  have ne: "?segs \<noteq> []" by (rule seg_chain_nonempty [OF ch assms])
  note seg_chain_hd [OF ch ne] seg_chain_last [OF ch ne] seg_chain_pos [OF ch]
    seg_chain_cover [OF ch] seg_chain_sum [OF ch]
  moreover have "\<forall>i. Suc i < length ?segs \<longrightarrow> seg_end (?segs ! i) = seg_start (?segs ! Suc i)"
    using seg_chain_nth [OF ch] by blast
  ultimately show ?thesis using ne by blast
qed

theorem status_segments_partition_witness:
  "(0::int) < 60
   \<and> status_segments db1 ''a'' 0 60 = [Seg 0 30 Active, Seg 30 60 Inactive]
   \<and> (\<Sum>s\<leftarrow>status_segments db1 ''a'' 0 60. seg_end s - seg_start s) = 60 - 0"
  using status_segments_partition [of 0 60 db1 "''a''"]
  by (simp add: status_segments_def db1_def rows_in_window_def prev_ping_def initial_status_def)


subsection \<open>The initial status\<close>

lemma sort_key_hd_min:
  assumes "sort_key f xs = p # rest"
  shows "p \<in> set xs \<and> (\<forall>q\<in>set xs. f p \<le> f q)"
proof -
  have s: "set (p # rest) = set xs" using assms set_sort [of f xs] by simp
  have "sorted (map f (p # rest))" using assms sorted_sort_key [of f xs] by simp
  then have "\<forall>q\<in>set (p # rest). f p \<le> f q" by auto
  with s show ?thesis by auto
qed

lemma sort_key_Nil_iff: "sort_key f xs = [] \<longleftrightarrow> xs = []"
  by (metis length_sort length_0_conv)

lemma prev_ping_Some:
  assumes "\<exists>p\<in>set (store_status_rows db). ss_store_id p = sid \<and> timestamp_utc p < start"
  shows "\<exists>p\<in>set (store_status_rows db). ss_store_id p = sid \<and> timestamp_utc p < start
           \<and> (\<forall>q\<in>set (store_status_rows db). ss_store_id q = sid \<and> timestamp_utc q < start
                  \<longrightarrow> timestamp_utc q \<le> timestamp_utc p)
           \<and> prev_ping db sid start = Some (timestamp_utc p, status p)"
proof -
  let ?xs = "filter (\<lambda>p. ss_store_id p = sid \<and> timestamp_utc p < start) (store_status_rows db)"
  from assms have "?xs \<noteq> []" by (auto simp: filter_empty_conv)
  then obtain p rest where pr: "sort_key (\<lambda>p. - timestamp_utc p) ?xs = p # rest"
    by (cases "sort_key (\<lambda>p. - timestamp_utc p) ?xs") (auto simp: sort_key_Nil_iff)
  from sort_key_hd_min [OF pr]
  have "p \<in> set ?xs" and "\<forall>q\<in>set ?xs. timestamp_utc q \<le> timestamp_utc p" by auto
  moreover have "prev_ping db sid start = Some (timestamp_utc p, status p)"
    using pr by (simp add: prev_ping_def)
  ultimately show ?thesis by auto
qed

lemma prev_ping_None:
  assumes "\<not> (\<exists>p\<in>set (store_status_rows db). ss_store_id p = sid \<and> timestamp_utc p < start)"
  shows "prev_ping db sid start = None"
proof -
  have "filter (\<lambda>p. ss_store_id p = sid \<and> timestamp_utc p < start) (store_status_rows db) = []"
    using assms by (auto simp: filter_empty_conv)
  then show ?thesis by (simp add: prev_ping_def)
qed

lemma rows_in_window_first:
  assumes "\<exists>p\<in>set (store_status_rows db).
             ss_store_id p = sid \<and> start \<le> timestamp_utc p \<and> timestamp_utc p < end'"
  shows "\<exists>p\<in>set (store_status_rows db).
             ss_store_id p = sid \<and> start \<le> timestamp_utc p \<and> timestamp_utc p < end'
           \<and> (\<forall>q\<in>set (store_status_rows db).
                  ss_store_id q = sid \<and> start \<le> timestamp_utc q \<and> timestamp_utc q < end'
                  \<longrightarrow> timestamp_utc p \<le> timestamp_utc q)
           \<and> (\<exists>rest. rows_in_window db sid start end' = (timestamp_utc p, status p) # rest)"
proof -
  let ?xs = "filter (\<lambda>p. ss_store_id p = sid \<and> timestamp_utc p \<ge> start \<and> timestamp_utc p < end')
               (store_status_rows db)"
  from assms have "?xs \<noteq> []" by (auto simp: filter_empty_conv)
  then obtain p rest where pr: "sort_key timestamp_utc ?xs = p # rest"
    by (cases "sort_key timestamp_utc ?xs") (auto simp: sort_key_Nil_iff)
  from sort_key_hd_min [OF pr]
  have "p \<in> set ?xs" and "\<forall>q\<in>set ?xs. timestamp_utc p \<le> timestamp_utc q" by auto
  moreover have "rows_in_window db sid start end'
                   = (timestamp_utc p, status p) # map (\<lambda>p. (timestamp_utc p, status p)) rest"
    using pr by (simp add: rows_in_window_def)
  ultimately show ?thesis by auto
qed

lemma rows_in_window_Nil:
  assumes "\<not> (\<exists>p\<in>set (store_status_rows db).
             ss_store_id p = sid \<and> start \<le> timestamp_utc p \<and> timestamp_utc p < end')"
  shows "rows_in_window db sid start end' = []"
proof -
  have "filter (\<lambda>p. ss_store_id p = sid \<and> timestamp_utc p \<ge> start \<and> timestamp_utc p < end')
          (store_status_rows db) = []"
    using assms by (auto simp: filter_empty_conv)
  then show ?thesis by (simp add: rows_in_window_def)
qed

lemma rows_in_window_mem:
  "r \<in> set (rows_in_window db sid start end') \<Longrightarrow>
   \<exists>p\<in>set (store_status_rows db). ss_store_id p = sid \<and> timestamp_utc p = fst r \<and> status p = snd r"
  by (auto simp: rows_in_window_def)

lemma seg_loop_prefix:
  "seg_loop cursor c segs rows = (cursor', c', segs') \<Longrightarrow> \<exists>ext. segs' = segs @ ext"
proof (induction rows arbitrary: cursor c segs)
  case Nil then show ?case by simp
next
  case (Cons r rows)
  obtain ts st where r: "r = (ts, st)" by (cases r)
  from Cons.prems r
  have "seg_loop ts st (if ts > cursor then segs @ [Seg cursor ts c] else segs) rows
          = (cursor', c', segs')" by simp
  from Cons.IH [OF this] show ?case by (auto split: if_splits)
qed

lemma seg_loop_first_status:
  assumes "sorted (map fst rows)" "\<forall>r\<in>set rows. start \<le> fst r"
    and "seg_loop start c [] rows = (cursor', c', segs')"
  shows "(if segs' = [] then c' else seg_status (hd segs'))
           \<in> (if \<exists>r\<in>set rows. fst r = start then snd ` {r \<in> set rows. fst r = start} else {c})"
  using assms
proof (induction rows arbitrary: c)
  case Nil then show ?case by simp
next
  case (Cons r rows)
  obtain ts st where r: "r = (ts, st)" by (cases r)
  from Cons.prems r have s: "sorted (map fst rows)" and ge: "\<forall>q\<in>set rows. start \<le> fst q"
    and tsle: "\<forall>q\<in>set rows. ts \<le> fst q" and le: "start \<le> ts"
    by auto
  show ?case
  proof (cases "ts > start")
    case True
    from Cons.prems(3) r True
    have "seg_loop ts st ([] @ [Seg start ts c]) rows = (cursor', c', segs')" by simp
    from seg_loop_prefix [OF this] obtain ext where "segs' = [Seg start ts c] @ ext" by auto
    then have "segs' \<noteq> []" "seg_status (hd segs') = c" by simp_all
    moreover have "\<not> (\<exists>q\<in>set (r # rows). fst q = start)"
      using True tsle r by auto
    ultimately show ?thesis by simp
  next
    case False
    with le have eq: "ts = start" by simp
    from Cons.prems(3) r eq have "seg_loop start st [] rows = (cursor', c', segs')" by simp
    from Cons.IH [OF s ge this]
    have "(if segs' = [] then c' else seg_status (hd segs'))
           \<in> (if \<exists>r\<in>set rows. fst r = start then snd ` {r \<in> set rows. fst r = start} else {st})" .
    then have "(if segs' = [] then c' else seg_status (hd segs'))
           \<in> snd ` {q \<in> set (r # rows). fst q = start}"
      using r eq by (force split: if_splits)
    moreover have "\<exists>q\<in>set (r # rows). fst q = start" using r eq by simp
    ultimately show ?thesis by simp
  qed
qed

lemma status_segments_first_status:
  assumes "start < end'"
    and "initial_status (prev_ping db sid start) (rows_in_window db sid start end') = Some c0"
  shows "seg_status (hd (status_segments db sid start end'))
           \<in> (if \<exists>r\<in>set (rows_in_window db sid start end'). fst r = start
               then snd ` {r \<in> set (rows_in_window db sid start end'). fst r = start}
               else {c0})"
proof -
  let ?rows = "rows_in_window db sid start end'"
  obtain cursor c segs where l: "seg_loop start c0 [] ?rows = (cursor, c, segs)"
    by (cases "seg_loop start c0 [] ?rows") auto
  have ge: "\<forall>r\<in>set ?rows. start \<le> fst r" using rows_in_window_range by blast
  have "seg_chain start [] start" by simp
  then have mem: "cursor \<in> insert start (fst ` set ?rows)"
    using seg_loop_chain [OF _ rows_in_window_sorted ge l] by blast
  from mem assms have lt: "cursor < end'" using rows_in_window_range by auto
  have eq: "status_segments db sid start end' = segs @ [Seg cursor end' c]"
    using assms l lt by (simp add: status_segments_def)
  have "seg_status (hd (segs @ [Seg cursor end' c])) = (if segs = [] then c else seg_status (hd segs))"
    by (cases segs) simp_all
  with seg_loop_first_status [OF rows_in_window_sorted ge l] eq show ?thesis by simp
qed

text \<open>The status the walk starts with, and where it shows in the result.\<close>

lemma initial_status_cases:
  assumes "start < end'"
  shows
   "((\<exists>p\<in>set (store_status_rows db). ss_store_id p = sid \<and> timestamp_utc p < start) \<longrightarrow>
       (\<exists>p\<in>set (store_status_rows db). ss_store_id p = sid \<and> timestamp_utc p < start
          \<and> (\<forall>q\<in>set (store_status_rows db). ss_store_id q = sid \<and> timestamp_utc q < start
                 \<longrightarrow> timestamp_utc q \<le> timestamp_utc p)
          \<and> initial_status (prev_ping db sid start) (rows_in_window db sid start end')
              = Some (status p)))
  \<and> (\<not> (\<exists>p\<in>set (store_status_rows db). ss_store_id p = sid \<and> timestamp_utc p < start)
     \<and> (\<exists>p\<in>set (store_status_rows db).
           ss_store_id p = sid \<and> start \<le> timestamp_utc p \<and> timestamp_utc p < end') \<longrightarrow>
       (\<exists>p\<in>set (store_status_rows db).
           ss_store_id p = sid \<and> start \<le> timestamp_utc p \<and> timestamp_utc p < end'
          \<and> (\<forall>q\<in>set (store_status_rows db).
                 ss_store_id q = sid \<and> start \<le> timestamp_utc q \<and> timestamp_utc q < end'
                 \<longrightarrow> timestamp_utc p \<le> timestamp_utc q)
          \<and> initial_status (prev_ping db sid start) (rows_in_window db sid start end')
              = Some (status p)))
  \<and> (\<not> (\<exists>p\<in>set (store_status_rows db). ss_store_id p = sid \<and> timestamp_utc p < end') \<longrightarrow>
       initial_status (prev_ping db sid start) (rows_in_window db sid start end') = None
     \<and> status_segments db sid start end' = [Seg start end' Inactive])
  \<and> (\<forall>c0. initial_status (prev_ping db sid start) (rows_in_window db sid start end') = Some c0
        \<and> \<not> (\<exists>p\<in>set (store_status_rows db). ss_store_id p = sid \<and> timestamp_utc p = start) \<longrightarrow>
        seg_start (hd (status_segments db sid start end')) = start
      \<and> seg_status (hd (status_segments db sid start end')) = c0)
  \<and> ((\<exists>p\<in>set (store_status_rows db). ss_store_id p = sid \<and> timestamp_utc p = start) \<longrightarrow>
       seg_start (hd (status_segments db sid start end')) = start
     \<and> (\<exists>p\<in>set (store_status_rows db). ss_store_id p = sid \<and> timestamp_utc p = start
          \<and> seg_status (hd (status_segments db sid start end')) = status p))"
  (is "?A \<and> ?B \<and> ?C \<and> ?D \<and> ?E")
proof -
  let ?rows = "rows_in_window db sid start end'"
  let ?segs = "status_segments db sid start end'"
  have ch: "seg_chain start ?segs end'" by (rule status_segments_chain [OF assms])
  have ne: "?segs \<noteq> []" by (rule seg_chain_nonempty [OF ch assms])
  have hd: "seg_start (hd ?segs) = start" by (rule seg_chain_hd [OF ch ne])
  have A: ?A
  proof
    assume "\<exists>p\<in>set (store_status_rows db). ss_store_id p = sid \<and> timestamp_utc p < start"
    from prev_ping_Some [OF this] show "\<exists>p\<in>set (store_status_rows db). ss_store_id p = sid \<and> timestamp_utc p < start
          \<and> (\<forall>q\<in>set (store_status_rows db). ss_store_id q = sid \<and> timestamp_utc q < start
                 \<longrightarrow> timestamp_utc q \<le> timestamp_utc p)
          \<and> initial_status (prev_ping db sid start) ?rows = Some (status p)"
      by (auto simp: initial_status_def)
  qed
  have B: ?B
  proof
    assume h: "\<not> (\<exists>p\<in>set (store_status_rows db). ss_store_id p = sid \<and> timestamp_utc p < start)
     \<and> (\<exists>p\<in>set (store_status_rows db).
           ss_store_id p = sid \<and> start \<le> timestamp_utc p \<and> timestamp_utc p < end')"
    then have n: "prev_ping db sid start = None" by (simp add: prev_ping_None)
    from h have "\<exists>p\<in>set (store_status_rows db).
           ss_store_id p = sid \<and> start \<le> timestamp_utc p \<and> timestamp_utc p < end'" by simp
    from rows_in_window_first [OF this] n
    show "\<exists>p\<in>set (store_status_rows db).
           ss_store_id p = sid \<and> start \<le> timestamp_utc p \<and> timestamp_utc p < end'
          \<and> (\<forall>q\<in>set (store_status_rows db).
                 ss_store_id q = sid \<and> start \<le> timestamp_utc q \<and> timestamp_utc q < end'
                 \<longrightarrow> timestamp_utc p \<le> timestamp_utc q)
          \<and> initial_status (prev_ping db sid start) ?rows = Some (status p)"
      by (auto simp: initial_status_def)
  qed
  have C: ?C
  proof
    assume h: "\<not> (\<exists>p\<in>set (store_status_rows db). ss_store_id p = sid \<and> timestamp_utc p < end')"
    with assms have "\<not> (\<exists>p\<in>set (store_status_rows db). ss_store_id p = sid \<and> timestamp_utc p < start)"
      by force
    then have n: "prev_ping db sid start = None" by (rule prev_ping_None)
    from h have "\<not> (\<exists>p\<in>set (store_status_rows db).
             ss_store_id p = sid \<and> start \<le> timestamp_utc p \<and> timestamp_utc p < end')" by blast
    then have r: "?rows = []" by (rule rows_in_window_Nil)
    from n r assms show "initial_status (prev_ping db sid start) ?rows = None
       \<and> ?segs = [Seg start end' Inactive]"
      by (simp add: initial_status_def status_segments_def)
  qed
  have D: ?D
  proof (intro allI impI)
    fix c0
    assume h: "initial_status (prev_ping db sid start) ?rows = Some c0
        \<and> \<not> (\<exists>p\<in>set (store_status_rows db). ss_store_id p = sid \<and> timestamp_utc p = start)"
    then have "\<not> (\<exists>r\<in>set ?rows. fst r = start)" using rows_in_window_mem by blast
    with status_segments_first_status [OF assms, of db sid c0] h
    have "seg_status (hd ?segs) = c0" by simp
    with hd show "seg_start (hd ?segs) = start \<and> seg_status (hd ?segs) = c0" by simp
  qed
  have E: ?E
  proof
    assume h: "\<exists>p\<in>set (store_status_rows db). ss_store_id p = sid \<and> timestamp_utc p = start"
    then obtain p where p: "p \<in> set (store_status_rows db)" "ss_store_id p = sid" "timestamp_utc p = start"
      by blast
    with assms have pin: "(timestamp_utc p, status p) \<in> set ?rows"
      by (auto simp: rows_in_window_def)
    then have ex: "\<exists>r\<in>set ?rows. fst r = start" using p by force
    from pin obtain r rest where "?rows = r # rest" by (cases ?rows) auto
    then obtain c0 where c0: "initial_status (prev_ping db sid start) ?rows = Some c0"
      by (cases "prev_ping db sid start") (auto simp: initial_status_def)
    from status_segments_first_status [OF assms c0] ex
    obtain r where "r \<in> set ?rows" "fst r = start" "seg_status (hd ?segs) = snd r" by auto
    with rows_in_window_mem [of r db sid start end']
    have "\<exists>p\<in>set (store_status_rows db). ss_store_id p = sid \<and> timestamp_utc p = start
          \<and> seg_status (hd ?segs) = status p" by auto
    with hd show "seg_start (hd ?segs) = start
     \<and> (\<exists>p\<in>set (store_status_rows db). ss_store_id p = sid \<and> timestamp_utc p = start
          \<and> seg_status (hd ?segs) = status p)" by simp
  qed
  from A B C D E show ?thesis by blast
qed

text \<open>
  Claim C6, as the code has it.  For a range with \<open>start < end\<close> the result is not
  empty and its first segment starts at \<open>start\<close>.  The status of the first segment is
  the status of a ping of the store exactly at \<open>start\<close> when there is one; otherwise
  the status of a latest ping strictly before \<open>start\<close> when there is one; otherwise the
  status of an earliest ping inside the range when there is one; otherwise the result is
  the single segment \<open>[start, end)\<close> with status inactive.
\<close>

theorem first_segment_status_policy:
  assumes "start < end'"
  shows
   "status_segments db sid start end' \<noteq> []
  \<and> seg_start (hd (status_segments db sid start end')) = start
  \<and> ((\<exists>p\<in>set (store_status_rows db). ss_store_id p = sid \<and> timestamp_utc p = start) \<longrightarrow>
       (\<exists>p\<in>set (store_status_rows db). ss_store_id p = sid \<and> timestamp_utc p = start
          \<and> seg_status (hd (status_segments db sid start end')) = status p))
  \<and> (\<not> (\<exists>p\<in>set (store_status_rows db). ss_store_id p = sid \<and> timestamp_utc p = start)
     \<and> (\<exists>p\<in>set (store_status_rows db). ss_store_id p = sid \<and> timestamp_utc p < start) \<longrightarrow>
       (\<exists>p\<in>set (store_status_rows db). ss_store_id p = sid \<and> timestamp_utc p < start
          \<and> (\<forall>q\<in>set (store_status_rows db). ss_store_id q = sid \<and> timestamp_utc q < start
                 \<longrightarrow> timestamp_utc q \<le> timestamp_utc p)
          \<and> seg_status (hd (status_segments db sid start end')) = status p))
  \<and> (\<not> (\<exists>p\<in>set (store_status_rows db). ss_store_id p = sid \<and> timestamp_utc p = start)
     \<and> \<not> (\<exists>p\<in>set (store_status_rows db). ss_store_id p = sid \<and> timestamp_utc p < start)
     \<and> (\<exists>p\<in>set (store_status_rows db).
           ss_store_id p = sid \<and> start \<le> timestamp_utc p \<and> timestamp_utc p < end') \<longrightarrow>
       (\<exists>p\<in>set (store_status_rows db).
           ss_store_id p = sid \<and> start \<le> timestamp_utc p \<and> timestamp_utc p < end'
          \<and> (\<forall>q\<in>set (store_status_rows db).
                 ss_store_id q = sid \<and> start \<le> timestamp_utc q \<and> timestamp_utc q < end'
                 \<longrightarrow> timestamp_utc p \<le> timestamp_utc q)
          \<and> seg_status (hd (status_segments db sid start end')) = status p))
  \<and> (\<not> (\<exists>p\<in>set (store_status_rows db). ss_store_id p = sid \<and> timestamp_utc p < end') \<longrightarrow>
       status_segments db sid start end' = [Seg start end' Inactive])"
  (is "?N \<and> ?H \<and> ?E \<and> ?A \<and> ?B \<and> ?C")
proof -
  let ?segs = "status_segments db sid start end'"
  let ?init = "initial_status (prev_ping db sid start) (rows_in_window db sid start end')"
  have ch: "seg_chain start ?segs end'" by (rule status_segments_chain [OF assms])
  have N: ?N by (rule seg_chain_nonempty [OF ch assms])
  have H: ?H by (rule seg_chain_hd [OF ch N])
  note ic = initial_status_cases [OF assms, of db sid]
  have E: ?E using ic by blast
  have D: "seg_status (hd ?segs) = c0"
    if "?init = Some c0"
      "\<not> (\<exists>p\<in>set (store_status_rows db). ss_store_id p = sid \<and> timestamp_utc p = start)" for c0
    using ic that by blast
  have A: ?A
  proof
    assume h: "\<not> (\<exists>p\<in>set (store_status_rows db). ss_store_id p = sid \<and> timestamp_utc p = start)
     \<and> (\<exists>p\<in>set (store_status_rows db). ss_store_id p = sid \<and> timestamp_utc p < start)"
    with ic obtain p where p: "p \<in> set (store_status_rows db)" "ss_store_id p = sid"
      "timestamp_utc p < start"
      "\<forall>q\<in>set (store_status_rows db). ss_store_id q = sid \<and> timestamp_utc q < start
          \<longrightarrow> timestamp_utc q \<le> timestamp_utc p"
      "?init = Some (status p)" by blast
    from D [OF p(5)] h have "seg_status (hd ?segs) = status p" by blast
    with p show "\<exists>p\<in>set (store_status_rows db). ss_store_id p = sid \<and> timestamp_utc p < start
          \<and> (\<forall>q\<in>set (store_status_rows db). ss_store_id q = sid \<and> timestamp_utc q < start
                 \<longrightarrow> timestamp_utc q \<le> timestamp_utc p)
          \<and> seg_status (hd ?segs) = status p" by blast
  qed
  have B: ?B
  proof
    assume h: "\<not> (\<exists>p\<in>set (store_status_rows db). ss_store_id p = sid \<and> timestamp_utc p = start)
     \<and> \<not> (\<exists>p\<in>set (store_status_rows db). ss_store_id p = sid \<and> timestamp_utc p < start)
     \<and> (\<exists>p\<in>set (store_status_rows db).
           ss_store_id p = sid \<and> start \<le> timestamp_utc p \<and> timestamp_utc p < end')"
    with ic obtain p where p: "p \<in> set (store_status_rows db)" "ss_store_id p = sid"
      "start \<le> timestamp_utc p" "timestamp_utc p < end'"
      "\<forall>q\<in>set (store_status_rows db).
          ss_store_id q = sid \<and> start \<le> timestamp_utc q \<and> timestamp_utc q < end'
          \<longrightarrow> timestamp_utc p \<le> timestamp_utc q"
      "?init = Some (status p)" by blast
    from D [OF p(6)] h have "seg_status (hd ?segs) = status p" by blast
    with p show "\<exists>p\<in>set (store_status_rows db).
           ss_store_id p = sid \<and> start \<le> timestamp_utc p \<and> timestamp_utc p < end'
          \<and> (\<forall>q\<in>set (store_status_rows db).
                 ss_store_id q = sid \<and> start \<le> timestamp_utc q \<and> timestamp_utc q < end'
                 \<longrightarrow> timestamp_utc p \<le> timestamp_utc q)
          \<and> seg_status (hd ?segs) = status p" by blast
  qed
  have C: ?C using ic by blast
  from N H E A B C show ?thesis by blast
qed

theorem first_segment_status_policy_witness:
  "(30::int) < 60
   \<and> (\<exists>p\<in>set (store_status_rows db1). ss_store_id p = ''a'' \<and> timestamp_utc p = 30)
   \<and> status_segments db1 ''a'' 30 60 = [Seg 30 60 Inactive]
   \<and> \<not> (\<exists>p\<in>set (store_status_rows db1). ss_store_id p = ''a'' \<and> timestamp_utc p = 40)
   \<and> (\<exists>p\<in>set (store_status_rows db1). ss_store_id p = ''a'' \<and> timestamp_utc p < 40)
   \<and> status_segments db1 ''a'' 40 60 = [Seg 40 60 Inactive]
   \<and> \<not> (\<exists>p\<in>set (store_status_rows db1). ss_store_id p = ''b'' \<and> timestamp_utc p = 0)
   \<and> \<not> (\<exists>p\<in>set (store_status_rows db1). ss_store_id p = ''b'' \<and> timestamp_utc p < 0)
   \<and> (\<exists>p\<in>set (store_status_rows db1).
         ss_store_id p = ''b'' \<and> 0 \<le> timestamp_utc p \<and> timestamp_utc p < 60)
   \<and> status_segments db1 ''b'' 0 60 = [Seg 0 45 Active, Seg 45 60 Active]
   \<and> \<not> (\<exists>p\<in>set (store_status_rows db1). ss_store_id p = ''c'' \<and> timestamp_utc p < 60)
   \<and> status_segments db1 ''c'' 0 60 = [Seg 0 60 Inactive]"
  using first_segment_status_policy [of 30 60 db1 "''a''"]
        first_segment_status_policy [of 40 60 db1 "''a''"]
        first_segment_status_policy [of 0 60 db1 "''b''"]
        first_segment_status_policy [of 0 60 db1 "''c''"]
  by (simp add: status_segments_def db1_def rows_in_window_def prev_ping_def initial_status_def)

text \<open>
  The seed's status is not always the status the result starts with: in \<open>db1\<close> the only
  ping of store \<open>a\<close> before 30 is active, a ping of the store lies exactly at 30, and
  the result for \<open>[30, 60)\<close> starts inactive.
\<close>

theorem seed_status_overridden_counterexample:
  "filter (\<lambda>p. ss_store_id p = ''a'' \<and> timestamp_utc p < 30) (store_status_rows db1)
     = [\<lparr>ss_store_id = ''a'', timestamp_utc = 0, status = Active\<rparr>]
   \<and> prev_ping db1 ''a'' 30 = Some (0, Active)
   \<and> status_segments db1 ''a'' 30 60 = [Seg 30 60 Inactive]
   \<and> seg_status (hd (status_segments db1 ''a'' 30 60)) \<noteq> Active"
  by (simp add: status_segments_def db1_def rows_in_window_def prev_ping_def initial_status_def)

section \<open>Business windows: properties\<close>

text \<open>
  Claim C7.  For every zone table, zone name and range with \<open>start < end\<close>, an empty
  schedule (the empty dict, or no dict at all) gives exactly the single interval
  \<open>[start, end)\<close>: the store counts as open around the clock.
\<close>

theorem business_windows_empty_schedule:
  assumes "win_start_utc < win_end_utc"
  shows "business_windows_utc zone_lookup tzname (Some []) win_start_utc win_end_utc
           = Inr [Interval win_start_utc win_end_utc]
       \<and> business_windows_utc zone_lookup tzname None win_start_utc win_end_utc
           = Inr [Interval win_start_utc win_end_utc]"
  using assms by (simp add: business_windows_utc_def)

theorem business_windows_empty_schedule_witness:
  "(0::int) < 60
   \<and> business_windows_utc (\<lambda>n. None) (Some ''Asia/Kolkata'') (Some []) 0 60 = Inr [Interval 0 60]
   \<and> business_windows_utc (\<lambda>n. None) (Some ''Asia/Kolkata'') None 0 60 = Inr [Interval 0 60]"
  using business_windows_empty_schedule [of 0 60 "\<lambda>n. None" "Some ''Asia/Kolkata''"]
  by simp

text \<open>
  Claim C8.  For a degenerate range (\<open>start \<ge> end\<close>) the business window builder and
  the status segment builder both return the empty list, whatever the other inputs are,
  and neither raises: the window builder's result is a value, not an exception.
\<close>

theorem degenerate_range_empty:
  assumes "range_start \<ge> range_end"
  shows "business_windows_utc zone_lookup tzname hours_for_store range_start range_end = Inr []
       \<and> status_segments db sid range_start range_end = []"
  using assms by (simp add: business_windows_utc_def status_segments_def)

theorem degenerate_range_empty_witness:
  "(60::int) \<ge> 60
   \<and> business_windows_utc (\<lambda>n. None) (Some ''Nowhere/Unknown'') (Some [(0, [(0, 1)])]) 60 60 = Inr []
   \<and> status_segments db1 ''a'' 60 60 = []
   \<and> business_windows_utc (\<lambda>n. None) None None 60 0 = Inr []
   \<and> status_segments db1 ''a'' 60 0 = []"
  using degenerate_range_empty [of 60 60 "\<lambda>n. None" "Some ''Nowhere/Unknown''" "Some [(0, [(0, 1)])]" db1 "''a''"]
        degenerate_range_empty [of 0 60 "\<lambda>n. None" None None db1 "''a''"]
  by simp

subsection \<open>Overnight windows\<close>

lemmas time_consts = time_hmsu_def US_PER_HOUR_def US_PER_MINUTE_def US_PER_SECOND_def US_PER_DAY_def

text \<open>
  Claim C2, as the code has it.  For the overnight entry \<open>(23:00, 02:00)\<close> in a zone
  whose offset is constant over the local day and the next one, the two emitted pieces
  are \<open>[day 23:00, day 23:59:59.999999)\<close> and \<open>[day+1 00:00, day+1 02:00)\<close>, each
  shifted by the offset, and their total duration is three hours less one microsecond:
  the end of the day is \<^verbatim>\<open>time(23, 59, 59, 999_999)\<close>, not the following midnight.
\<close>

theorem overnight_window_duration:
  assumes "\<forall>w. combine (date_of day_local) 0 \<le> w \<and> w < combine (date_of day_local + 2) 0
               \<longrightarrow> utcoffset_wall tz w = off"
  shows "local_window_to_utc day_local (time_hmsu 23 0 0 0) (time_hmsu 2 0 0 0) tz
           = [Interval (combine (date_of day_local) (time_hmsu 23 0 0 0) - off)
                       (combine (date_of day_local) (time_hmsu 23 59 59 999999) - off),
              Interval (combine (date_of day_local + 1) (time_hmsu 0 0 0 0) - off)
                       (combine (date_of day_local + 1) (time_hmsu 2 0 0 0) - off)]
       \<and> sum_list (map duration
            (local_window_to_utc day_local (time_hmsu 23 0 0 0) (time_hmsu 2 0 0 0) tz))
           = 3 * US_PER_HOUR - 1"
proof -
  let ?b = "date_of day_local"
  have o1: "utcoffset_wall tz (combine ?b (time_hmsu 23 0 0 0)) = off"
    using assms by (simp add: combine_def time_consts)
  have o2: "utcoffset_wall tz (combine ?b (time_hmsu 23 59 59 999999)) = off"
    using assms by (simp add: combine_def time_consts)
  have o3: "utcoffset_wall tz (combine (?b + 1) (time_hmsu 0 0 0 0)) = off"
    using assms by (simp add: combine_def time_consts)
  have o4: "utcoffset_wall tz (combine (?b + 1) (time_hmsu 2 0 0 0)) = off"
    using assms by (simp add: combine_def time_consts)
  have gt: "\<not> time_hmsu 23 0 0 0 \<le> time_hmsu 2 0 0 0" by (simp add: time_consts)
  have eq: "local_window_to_utc day_local (time_hmsu 23 0 0 0) (time_hmsu 2 0 0 0) tz
           = [Interval (combine ?b (time_hmsu 23 0 0 0) - off)
                       (combine ?b (time_hmsu 23 59 59 999999) - off),
              Interval (combine (?b + 1) (time_hmsu 0 0 0 0) - off)
                       (combine (?b + 1) (time_hmsu 2 0 0 0) - off)]"
    using gt o1 o2 o3 o4 by (simp add: local_window_to_utc_def Let_def wall_to_utc_def)
  have "sum_list (map duration
            (local_window_to_utc day_local (time_hmsu 23 0 0 0) (time_hmsu 2 0 0 0) tz))
          = 3 * US_PER_HOUR - 1"
    unfolding eq by (simp add: duration_def combine_def time_consts)
  with eq show ?thesis by simp
qed

theorem overnight_window_duration_witness:
  "utcoffset_wall UTC = (\<lambda>w. 0)
   \<and> local_window_to_utc 0 (time_hmsu 23 0 0 0) (time_hmsu 2 0 0 0) UTC
       = [Interval 82800000000 86399999999, Interval 86400000000 93600000000]
   \<and> sum_list (map duration (local_window_to_utc 0 (time_hmsu 23 0 0 0) (time_hmsu 2 0 0 0) UTC))
       = 10799999999"
  using overnight_window_duration [of 0 UTC 0]
  by (simp add: UTC_def date_of_def combine_def duration_def time_consts)

text \<open>
  The total is not exactly three hours: in UTC, for the local day 1970-01-01, it is
  10799999999 microseconds.
\<close>

theorem overnight_three_hours_counterexample:
  "sum_list (map duration (local_window_to_utc 0 (time_hmsu 23 0 0 0) (time_hmsu 2 0 0 0) UTC))
     \<noteq> 3 * US_PER_HOUR"
  by (simp add: local_window_to_utc_def Let_def wall_to_utc_def UTC_def duration_def
        date_of_def combine_def time_consts)

subsection \<open>The window builder on concrete schedules\<close>

text \<open>
  A Thursday-only overnight entry \<open>(23:00, 02:00)\<close> in UTC over the two days from
  1970-01-01 (a Thursday): the two pieces come back unmerged, since the second starts one
  microsecond after the first ends.
\<close>

lemma business_windows_overnight_utc:
  "business_windows_utc (\<lambda>n. Some UTC) (Some ''UTC'')
     (Some [(3, [(time_hmsu 23 0 0 0, time_hmsu 2 0 0 0)])]) 0 (2 * US_PER_DAY)
   = Inr [Interval 82800000000 86399999999, Interval 86400000000 93600000000]"
  by (simp add: business_windows_utc_def UTC_def utc_to_wall_def wall_to_utc_def date_of_def
        combine_def weekday_def day_windows_def hours_get_def local_window_to_utc_def
        List.map_filter_def clip_def merge_overlaps_def Let_def time_consts)

text \<open>
  A Monday-only entry \<open>(09:00, 12:00)\<close> in UTC over Monday 1970-01-05: one window of
  three hours.
\<close>

lemma business_windows_monday:
  "business_windows_utc (\<lambda>n. Some UTC) (Some ''UTC'')
     (Some [(0, [(time_hmsu 9 0 0 0, time_hmsu 12 0 0 0)])]) (4 * US_PER_DAY) (5 * US_PER_DAY)
   = Inr [Interval (4 * 86400000000 + 9 * 3600000000) (4 * 86400000000 + 12 * 3600000000)]"
  by (simp add: business_windows_utc_def UTC_def utc_to_wall_def wall_to_utc_def date_of_def
        combine_def weekday_def day_windows_def hours_get_def local_window_to_utc_def
        List.map_filter_def clip_def merge_overlaps_def Let_def time_consts)

section \<open>Floats: rounding error\<close>

lemma expo_dn_bounds:
  "1 \<le> x \<Longrightarrow> 2 powi (expo_dn x) \<le> x \<and> x < 2 powi (expo_dn x + 1)"
proof (induction x rule: expo_dn.induct)
  case (1 x)
  show ?case
  proof (cases "x \<ge> 2")
    case True
    then have h: "1 \<le> x / 2" by simp
    from "1.IH" [OF True h]
    have a: "2 powi (expo_dn (x / 2)) \<le> x / 2" and b: "x / 2 < 2 powi (expo_dn (x / 2) + 1)"
      by simp_all
    have e: "expo_dn x = expo_dn (x / 2) + 1" using True by (subst expo_dn.simps) simp
    have p: "2 powi (k + 1) = 2 * (2::real) powi k" for k
      by (simp add: power_int_add)
    from a b show ?thesis unfolding e p by simp
  next
    case False
    then have "expo_dn x = 0" by (subst expo_dn.simps) simp
    with False "1.prems" show ?thesis by simp
  qed
qed

lemma expo_up_bounds:
  "0 < x \<Longrightarrow> x < 1 \<Longrightarrow> 2 powi (expo_up x) \<le> x \<and> x < 2 powi (expo_up x + 1)"
proof (induction x rule: expo_up.induct)
  case (1 x)
  from "1.prems" have c: "0 < x \<and> x < 1" by simp
  then have e: "expo_up x = expo_up (2 * x) - 1" by (subst expo_up.simps) simp
  have p: "2 powi (k - 1) = (2::real) powi k / 2" for k
    by (simp add: power_int_diff)
  show ?case
  proof (cases "2 * x < 1")
    case True
    from "1.IH" [OF c _ True] c
    have a: "2 powi (expo_up (2 * x)) \<le> 2 * x" and b: "2 * x < 2 powi (expo_up (2 * x) + 1)"
      by simp_all
    have q: "expo_up x + 1 = expo_up (2 * x)" using e by simp
    have "2 powi (expo_up (2 * x) + 1) = 2 * (2::real) powi (expo_up (2 * x))"
      by (simp add: power_int_add)
    with a b show ?thesis unfolding q unfolding e p by simp
  next
    case False
    then have z: "expo_up (2 * x) = 0" by (subst expo_up.simps) simp
    with e have "expo_up x = - 1" by simp
    with False c show ?thesis by simp
  qed
qed

lemma expo_bounds:
  assumes "0 < x"
  shows "2 powi (expo x) \<le> x \<and> x < 2 powi (expo x + 1)"
proof (cases "1 \<le> x")
  case True
  then show ?thesis using expo_dn_bounds [OF True] by (simp add: expo_def)
next
  case False
  then have "x < 1" by simp
  from expo_up_bounds [OF assms this] False show ?thesis by (simp add: expo_def)
qed

lemma round_half_even_near: "\<bar>of_int (round_half_even y) - y\<bar> \<le> 1 / 2"
proof -
  have "of_int \<lfloor>y\<rfloor> \<le> y" "y < of_int \<lfloor>y\<rfloor> + 1" by linarith+
  then show ?thesis by (auto simp: round_half_even_def Let_def)
qed

lemma pow2_shift_dn: "(2::real) powi (e - 52) = 2 powi e / 2 ^ 52"
proof -
  have "(2::real) powi (e - 52) = 2 powi e / 2 powi 52" by (rule power_int_diff) simp
  also have "(2::real) powi 52 = 2 ^ 52" by (simp only: power_int_def) simp
  finally show ?thesis .
qed

lemma pow2_shift_up: "(2::real) powi (52 - e) = 2 ^ 52 / 2 powi e"
proof -
  have "(2::real) powi (52 - e) = 2 powi 52 / 2 powi e" by (rule power_int_diff) simp
  also have "(2::real) powi 52 = 2 ^ 52" by (simp only: power_int_def) simp
  finally show ?thesis .
qed

lemma fl_error:
  assumes "0 < x"
  shows "\<bar>fl x - x\<bar> \<le> x * unit_roundoff"
proof -
  define e where "e = expo x"
  from expo_bounds [OF assms] have lo: "2 powi e \<le> x" by (simp add: e_def)
  define q :: real where "q = 2 powi e / 2 ^ 52"
  have ppos: "0 < (2::real) powi e" by simp
  have qpos: "0 < q" unfolding q_def using ppos by simp
  have q1: "2 powi (e - 52) = q" unfolding q_def by (rule pow2_shift_dn)
  have q2: "x * 2 powi (52 - e) = x / q" unfolding q_def pow2_shift_up by simp
  have ax: "\<bar>x\<bar> = x" using assms by simp
  have f: "fl x = of_int (round_half_even (x / q)) * q"
  proof -
    have "fl x = of_int (round_half_even (x * 2 powi (52 - e))) * 2 powi (e - 52)"
      using assms unfolding fl_def Let_def ax e_def by simp
    then show ?thesis by (simp only: q1 q2)
  qed
  have d: "fl x - x = (of_int (round_half_even (x / q)) - x / q) * q"
  proof -
    have "(x / q) * q = x" using qpos by simp
    then show ?thesis unfolding f by (simp only: left_diff_distrib)
  qed
  have "\<bar>fl x - x\<bar> = \<bar>of_int (round_half_even (x / q)) - x / q\<bar> * q"
    unfolding d abs_mult using qpos by simp
  also have "\<dots> \<le> (1 / 2) * q"
    by (rule mult_right_mono [OF round_half_even_near]) (use qpos in simp)
  also have "(1 / 2) * q = 2 powi e * unit_roundoff"
    unfolding q_def unit_roundoff_def by simp
  also have "\<dots> \<le> x * unit_roundoff"
    by (rule mult_right_mono [OF lo]) (simp add: unit_roundoff_def)
  finally show ?thesis .
qed

lemma fl_zero [simp]: "fl 0 = 0"
  by (simp add: fl_def)

lemma fl_bounds:
  assumes "0 \<le> x"
  shows "x * (1 - unit_roundoff) \<le> fl x \<and> fl x \<le> x * (1 + unit_roundoff)"
proof (cases "x = 0")
  case True then show ?thesis by simp
next
  case False
  with assms have "0 < x" by simp
  from fl_error [OF this] show ?thesis by (simp add: abs_le_iff algebra_simps)
qed

lemma unit_roundoff_range: "0 < unit_roundoff" "unit_roundoff < 1"
  by (simp_all add: unit_roundoff_def)

lemma close_nonneg: "0 \<le> X \<Longrightarrow> close_to j X x \<Longrightarrow> 0 \<le> x"
proof -
  assume X: "0 \<le> X" and w: "close_to j X x"
  have "0 \<le> (1 - unit_roundoff) ^ j" using unit_roundoff_range by simp
  with X have "0 \<le> X * (1 - unit_roundoff) ^ j" by simp
  with w show ?thesis by (simp add: close_to_def)
qed

lemma close_mono:
  assumes "0 \<le> X" "j \<le> k" "close_to j X x"
  shows "close_to k X x"
proof -
  have up: "(1 + unit_roundoff) ^ j \<le> (1 + unit_roundoff) ^ k"
    using assms(2) unit_roundoff_range by (intro power_increasing) simp_all
  have dn: "(1 - unit_roundoff) ^ k \<le> (1 - unit_roundoff) ^ j"
    using assms(2) unit_roundoff_range by (intro power_decreasing) simp_all
  from up assms(1) have "X * (1 + unit_roundoff) ^ j \<le> X * (1 + unit_roundoff) ^ k"
    by (rule mult_left_mono)
  moreover from dn assms(1) have "X * (1 - unit_roundoff) ^ k \<le> X * (1 - unit_roundoff) ^ j"
    by (rule mult_left_mono)
  ultimately show ?thesis using assms(3) by (simp add: close_to_def)
qed

lemma close_fl:
  assumes "0 \<le> X" "close_to j X x"
  shows "close_to (Suc j) X (fl x)"
proof -
  have x0: "0 \<le> x" by (rule close_nonneg [OF assms])
  from fl_bounds [OF x0] have lo: "x * (1 - unit_roundoff) \<le> fl x"
    and hi: "fl x \<le> x * (1 + unit_roundoff)" by simp_all
  have "X * (1 - unit_roundoff) ^ j * (1 - unit_roundoff) \<le> x * (1 - unit_roundoff)"
    using assms(2) unit_roundoff_range by (intro mult_right_mono) (simp_all add: close_to_def)
  moreover have "x * (1 + unit_roundoff) \<le> X * (1 + unit_roundoff) ^ j * (1 + unit_roundoff)"
    using assms(2) unit_roundoff_range by (intro mult_right_mono) (simp_all add: close_to_def)
  ultimately have "X * (1 - unit_roundoff) ^ j * (1 - unit_roundoff) \<le> fl x"
    and "fl x \<le> X * (1 + unit_roundoff) ^ j * (1 + unit_roundoff)"
    using lo hi by linarith+
  then show ?thesis by (simp add: close_to_def mult.assoc mult.commute mult.left_commute)
qed

lemma close_add:
  assumes "close_to j X x" "close_to j Y y"
  shows "close_to j (X + Y) (x + y)"
  using assms by (simp add: close_to_def distrib_right)

lemma close_scale:
  assumes "0 \<le> c" "close_to j X x"
  shows "close_to j (X * c) (x * c)"
proof -
  from assms have "X * (1 - unit_roundoff) ^ j * c \<le> x * c" "x * c \<le> X * (1 + unit_roundoff) ^ j * c"
    by (simp_all add: close_to_def mult_right_mono)
  then show ?thesis by (simp add: close_to_def mult.assoc mult.commute mult.left_commute)
qed

lemma close_refl: "close_to 0 X X"
  by (simp add: close_to_def)

text \<open>The float minutes of one overlap of \<open>d\<close> microseconds.\<close>

lemma close_mins:
  assumes "0 \<le> d"
  shows "close_to 2 (real_of_int d / 60000000) (fl (fl (real_of_int d / 1000000) / 60))"
proof -
  have n1: "0 \<le> real_of_int d / 1000000" using assms by simp
  have a: "close_to (Suc 0) (real_of_int d / 1000000) (fl (real_of_int d / 1000000))"
    by (rule close_fl [OF n1 close_refl])
  have "close_to (Suc 0) (real_of_int d / 1000000 * (1 / 60)) (fl (real_of_int d / 1000000) * (1 / 60))"
    by (rule close_scale [OF _ a]) simp
  then have b: "close_to (Suc 0) (real_of_int d / 60000000) (fl (real_of_int d / 1000000) / 60)"
    by simp
  have n2: "0 \<le> real_of_int d / 60000000" using assms by simp
  from close_fl [OF n2 b] show ?thesis by (simp add: numeral_2_eq_2)
qed

lemma close_step:
  assumes "0 \<le> X" "2 \<le> j" "close_to j X x" "0 \<le> d"
  shows "close_to (Suc j) (X + real_of_int d / 60000000)
           (fl (x + fl (fl (real_of_int d / 1000000) / 60)))"
proof -
  have n: "0 \<le> real_of_int d / 60000000" using assms(4) by simp
  have m: "close_to j (real_of_int d / 60000000) (fl (fl (real_of_int d / 1000000) / 60))"
    by (rule close_mono [OF n assms(2) close_mins [OF assms(4)]])
  have s: "close_to j (X + real_of_int d / 60000000) (x + fl (fl (real_of_int d / 1000000) / 60))"
    by (rule close_add [OF assms(3) m])
  from assms(1) n have "0 \<le> X + real_of_int d / 60000000" by simp
  from close_fl [OF this s] show ?thesis .
qed

lemma overlap_minutes_nonneg: "0 \<le> overlap_minutes bw s"
  by (simp add: overlap_minutes_def overlap_def)

lemma exact_minutes_nonneg: "0 \<le> exact_minutes act bw segs"
  unfolding exact_minutes_def by (rule sum_list_nonneg) (auto simp: overlap_minutes_nonneg)

lemma accumulate_segs_close:
  assumes "0 \<le> A" "0 \<le> I" "2 \<le> j" "close_to j A a" "close_to j I i"
  shows "close_to (j + length segs) (A + exact_minutes True bw segs)
           (fst (accumulate_segs bw segs (a, i)))
       \<and> close_to (j + length segs) (I + exact_minutes False bw segs)
           (snd (accumulate_segs bw segs (a, i)))"
  using assms
proof (induction segs arbitrary: A I a i j)
  case Nil then show ?case by (simp add: exact_minutes_def)
next
  case (Cons s segs)
  let ?st = "max (iv_start bw) (seg_start s)" and ?en = "min (iv_end bw) (seg_end s)"
  have j1: "2 \<le> Suc j" using Cons.prems(3) by simp
  have wa: "close_to (Suc j) A a" by (rule close_mono [OF Cons.prems(1) _ Cons.prems(4)]) simp
  have wi: "close_to (Suc j) I i" by (rule close_mono [OF Cons.prems(2) _ Cons.prems(5)]) simp
  show ?case
  proof (cases "?st \<ge> ?en")
    case True
    then have z: "overlap_minutes bw s = 0" by (simp add: overlap_minutes_def overlap_def)
    have e: "exact_minutes act bw (s # segs) = exact_minutes act bw segs" for act
      by (simp add: exact_minutes_def z)
    have r: "accumulate_segs bw (s # segs) (a, i) = accumulate_segs bw segs (a, i)"
      using True by (simp add: Let_def)
    from Cons.IH [OF Cons.prems(1,2) j1 wa wi] show ?thesis unfolding r e by simp
  next
    case False
    then have d: "0 \<le> ?en - ?st" by linarith
    from False have ov: "overlap_minutes bw s = real_of_int (?en - ?st) / 60000000"
      by (simp add: overlap_minutes_def overlap_def)
    let ?m = "fl (fl (real_of_int (?en - ?st) / 1000000) / 60)"
    show ?thesis
    proof (cases "seg_status s = Active")
      case True
      have r: "accumulate_segs bw (s # segs) (a, i) = accumulate_segs bw segs (fl (a + ?m), i)"
        using False True by (simp add: Let_def)
      have eA: "exact_minutes True bw (s # segs) = overlap_minutes bw s + exact_minutes True bw segs"
        using True by (simp add: exact_minutes_def)
      have eI: "exact_minutes False bw (s # segs) = exact_minutes False bw segs"
        using True by (simp add: exact_minutes_def)
      have w: "close_to (Suc j) (A + overlap_minutes bw s) (fl (a + ?m))"
        unfolding ov by (rule close_step [OF Cons.prems(1,3,4) d])
      have A': "0 \<le> A + overlap_minutes bw s" using Cons.prems(1) overlap_minutes_nonneg by simp
      from Cons.IH [OF A' Cons.prems(2) j1 w wi] show ?thesis
        unfolding r eA eI by (simp add: add.assoc)
    next
      case nact: False
      have r: "accumulate_segs bw (s # segs) (a, i) = accumulate_segs bw segs (a, fl (i + ?m))"
        using False nact by (simp add: Let_def)
      have eA: "exact_minutes True bw (s # segs) = exact_minutes True bw segs"
        using nact by (simp add: exact_minutes_def)
      have eI: "exact_minutes False bw (s # segs) = overlap_minutes bw s + exact_minutes False bw segs"
        using nact by (simp add: exact_minutes_def)
      have w: "close_to (Suc j) (I + overlap_minutes bw s) (fl (i + ?m))"
        unfolding ov by (rule close_step [OF Cons.prems(2,3,5) d])
      have I': "0 \<le> I + overlap_minutes bw s" using Cons.prems(2) overlap_minutes_nonneg by simp
      from Cons.IH [OF Cons.prems(1) I' j1 wa w] show ?thesis
        unfolding r eA eI by (simp add: add.assoc)
    qed
  qed
qed

lemma accumulate_loop_close:
  assumes "0 \<le> A" "0 \<le> I" "2 \<le> j" "close_to j A (fst acc)" "close_to j I (snd acc)"
  shows "close_to (j + length biz * length segs) (A + (\<Sum>bw\<leftarrow>biz. exact_minutes True bw segs))
           (fst (accumulate_loop segs biz acc))
       \<and> close_to (j + length biz * length segs) (I + (\<Sum>bw\<leftarrow>biz. exact_minutes False bw segs))
           (snd (accumulate_loop segs biz acc))"
  using assms
proof (induction biz arbitrary: A I acc j)
  case Nil then show ?case by simp
next
  case (Cons bw biz)
  obtain a i where acc: "acc = (a, i)" by (cases acc)
  let ?acc = "accumulate_segs bw segs (a, i)"
  from Cons.prems acc have wa: "close_to j A a" and wi: "close_to j I i" by simp_all
  from accumulate_segs_close [OF Cons.prems(1,2,3) wa wi, of segs bw]
  have w1: "close_to (j + length segs) (A + exact_minutes True bw segs) (fst ?acc)"
    and w2: "close_to (j + length segs) (I + exact_minutes False bw segs) (snd ?acc)" by simp_all
  have A': "0 \<le> A + exact_minutes True bw segs" using Cons.prems(1) exact_minutes_nonneg by simp
  have I': "0 \<le> I + exact_minutes False bw segs" using Cons.prems(2) exact_minutes_nonneg by simp
  have j': "2 \<le> j + length segs" using Cons.prems(3) by simp
  from Cons.IH [OF A' I' j' w1 w2]
  show ?case unfolding acc by (simp add: add.assoc add.commute add.left_commute)
qed

lemma exact_minutes_split:
  "exact_minutes True bw segs + exact_minutes False bw segs = (\<Sum>s\<leftarrow>segs. overlap_minutes bw s)"
  unfolding exact_minutes_def by (induction segs) auto

section \<open>Accumulator: properties\<close>

lemma overlap_split:
  "a \<le> e \<Longrightarrow> e \<le> b \<Longrightarrow> overlap x y a e + overlap x y e b = overlap x y a b"
  by (simp add: overlap_def max_def min_def)

lemma seg_chain_overlap:
  "seg_chain a segs b \<Longrightarrow>
   (\<Sum>s\<leftarrow>segs. overlap x y (seg_start s) (seg_end s)) = overlap x y a b"
proof (induction segs arbitrary: a)
  case Nil
  then show ?case by (simp add: overlap_def max_def min_def)
next
  case (Cons s segs)
  from Cons.prems have ch: "seg_chain (seg_end s) segs b" and sa: "seg_start s = a"
    and lt: "a < seg_end s" by auto
  from seg_chain_le [OF ch] have le: "seg_end s \<le> b" .
  have "(\<Sum>s\<leftarrow>segs. overlap x y (seg_start s) (seg_end s)) = overlap x y (seg_end s) b"
    by (rule Cons.IH [OF ch])
  with sa overlap_split [of a "seg_end s" b x y] lt le show ?case by simp
qed

subsection \<open>A run in floats\<close>

lemmas fl_eval = fl_def expo_def expo_dn.simps expo_up.simps round_half_even_def Let_def
  power_int_def power_one_over

lemma fl_small_ints: "fl 6 = 6" "fl 12 = 12" "fl 18 = 18"
  by (simp_all add: fl_eval)

lemma fl_tenth: "fl (1 / 10) = 3602879701896397 / 36028797018963968"
  by (simp add: fl_eval)

lemma fl_fifth: "fl (1 / 5) = 3602879701896397 / 18014398509481984"
  by (simp add: fl_eval)

lemma fl_tenth_again:
  "fl (3602879701896397 / 36028797018963968) = 3602879701896397 / 36028797018963968"
  by (simp add: fl_eval)

lemma fl_fifth_again:
  "fl (3602879701896397 / 18014398509481984) = 3602879701896397 / 18014398509481984"
  by (simp add: fl_eval)

lemma accumulate_six_twelve:
  "accumulate [Seg 0 6000000 Active, Seg 6000000 18000000 Inactive] [Interval 0 18000000]
     = (3602879701896397 / 36028797018963968, 3602879701896397 / 18014398509481984)"
  by (simp add: accumulate_def Let_def fl_small_ints fl_tenth fl_fifth fl_tenth_again fl_fifth_again)

subsection \<open>Every window minute is counted, up to rounding\<close>

text \<open>
  Claim C10, as the code has it.  When the segments form a chain from \<open>range_start\<close> to
  \<open>range_end\<close> (they partition the range) and every business window lies inside the
  range with \<open>start \<le> end\<close>, the active and inactive minutes returned by the
  accumulator add up to the total duration \<open>T\<close> of the business windows in minutes up
  to floating-point rounding: the sum lies between \<open>T * (1 - u) ^ (n + 2)\<close> and
  \<open>T * (1 + u) ^ (n + 2)\<close>, where \<open>u = 2 ^ -53\<close> and \<open>n\<close> is the number of
  (window, segment) pairs.  Disjointness of the windows is not needed.
\<close>

theorem accumulate_window_minutes_rounded:
  assumes "seg_chain range_start segs range_end"
    and "\<forall>bw\<in>set biz. range_start \<le> iv_start bw \<and> iv_start bw \<le> iv_end bw \<and> iv_end bw \<le> range_end"
  shows "real_of_int (sum_list (map duration biz)) / 1000000 / 60
           * (1 - unit_roundoff) ^ (length biz * length segs + 2)
         \<le> fst (accumulate segs biz) + snd (accumulate segs biz)
       \<and> fst (accumulate segs biz) + snd (accumulate segs biz)
         \<le> real_of_int (sum_list (map duration biz)) / 1000000 / 60
           * (1 + unit_roundoff) ^ (length biz * length segs + 2)"
proof -
  let ?n = "2 + length biz * length segs"
  let ?EA = "\<Sum>bw\<leftarrow>biz. exact_minutes True bw segs"
  let ?EI = "\<Sum>bw\<leftarrow>biz. exact_minutes False bw segs"
  let ?T = "real_of_int (sum_list (map duration biz)) / 1000000 / 60"
  have z: "close_to 2 0 (fst (0::real, 0::real))" "close_to 2 0 (snd (0::real, 0::real))"
    by (simp_all add: close_to_def)
  from accumulate_loop_close [OF _ _ _ z, of biz segs]
  have a: "close_to ?n ?EA (fst (accumulate segs biz))"
    and i: "close_to ?n ?EI (snd (accumulate segs biz))"
    by (simp_all add: accumulate_def)
  have s: "close_to ?n (?EA + ?EI) (fst (accumulate segs biz) + snd (accumulate segs biz))"
    by (rule close_add [OF a i])
  have "?EA + ?EI = (\<Sum>bw\<leftarrow>biz. exact_minutes True bw segs + exact_minutes False bw segs)"
    by (simp add: sum_list_addf)
  also have "\<dots> = (\<Sum>bw\<leftarrow>biz. real_of_int (duration bw) / 60000000)"
  proof (rule arg_cong [where f = sum_list], rule map_cong [OF refl])
    fix bw assume "bw \<in> set biz"
    with assms(2) have b: "range_start \<le> iv_start bw" "iv_start bw \<le> iv_end bw" "iv_end bw \<le> range_end"
      by auto
    have "(\<Sum>s\<leftarrow>segs. overlap (iv_start bw) (iv_end bw) (seg_start s) (seg_end s))
            = overlap (iv_start bw) (iv_end bw) range_start range_end"
      by (rule seg_chain_overlap [OF assms(1)])
    also have "\<dots> = duration bw" using b by (simp add: overlap_def duration_def)
    finally have o: "(\<Sum>s\<leftarrow>segs. overlap (iv_start bw) (iv_end bw) (seg_start s) (seg_end s))
                       = duration bw" .
    have "(\<Sum>s\<leftarrow>segs. overlap_minutes bw s)
            = real_of_int (\<Sum>s\<leftarrow>segs. overlap (iv_start bw) (iv_end bw) (seg_start s) (seg_end s))
                / 60000000"
      unfolding overlap_minutes_def by (induction segs) (simp_all add: add_divide_distrib)
    with o show "exact_minutes True bw segs + exact_minutes False bw segs
                   = real_of_int (duration bw) / 60000000"
      by (simp add: exact_minutes_split)
  qed
  also have "\<dots> = ?T"
    by (induction biz) (simp_all add: add_divide_distrib)
  finally have eq: "?EA + ?EI = ?T" .
  have nn: "2 + length biz * length segs = length biz * length segs + 2" by simp
  from s show ?thesis unfolding eq nn close_to_def .
qed

theorem accumulate_window_minutes_rounded_witness:
  "seg_chain 0 [Seg 0 6000000 Active, Seg 6000000 18000000 Inactive] 18000000
   \<and> list_all (\<lambda>bw. 0 \<le> iv_start bw \<and> iv_start bw \<le> iv_end bw \<and> iv_end bw \<le> 18000000)
        [Interval 0 18000000]
   \<and> 3 / 10 * (1 - unit_roundoff) ^ 4
        \<le> fst (accumulate [Seg 0 6000000 Active, Seg 6000000 18000000 Inactive] [Interval 0 18000000])
          + snd (accumulate [Seg 0 6000000 Active, Seg 6000000 18000000 Inactive] [Interval 0 18000000])
   \<and> fst (accumulate [Seg 0 6000000 Active, Seg 6000000 18000000 Inactive] [Interval 0 18000000])
        + snd (accumulate [Seg 0 6000000 Active, Seg 6000000 18000000 Inactive] [Interval 0 18000000])
        \<le> 3 / 10 * (1 + unit_roundoff) ^ 4"
proof -
  let ?segs = "[Seg 0 6000000 Active, Seg 6000000 18000000 Inactive]"
  let ?biz = "[Interval 0 18000000]"
  have h1: "seg_chain 0 ?segs 18000000" by simp
  have h2: "\<forall>bw\<in>set ?biz. 0 \<le> iv_start bw \<and> iv_start bw \<le> iv_end bw \<and> iv_end bw \<le> 18000000"
    by simp
  have h2': "list_all (\<lambda>bw. 0 \<le> iv_start bw \<and> iv_start bw \<le> iv_end bw \<and> iv_end bw \<le> 18000000) ?biz"
    by simp
  have e: "real_of_int (sum_list (map duration ?biz)) / 1000000 / 60 = 3 / 10"
    by (simp add: duration_def)
  have n: "length ?biz * length ?segs + 2 = 4" by simp
  note t = accumulate_window_minutes_rounded [OF h1 h2, unfolded e n]
  from h1 h2' t show ?thesis by blast
qed

text \<open>
  The sum is not always equal to the total: for the segments \<open>[0, 6s)\<close> active and
  \<open>[6s, 18s)\<close> inactive and the window \<open>[0, 18s)\<close> the accumulator returns the doubles
  nearest to \<open>0.1\<close> and \<open>0.2\<close>, whose sum is not \<open>0.3\<close>.
\<close>

theorem accumulate_exact_sum_counterexample:
  "seg_chain 0 [Seg 0 6000000 Active, Seg 6000000 18000000 Inactive] 18000000
   \<and> list_all (\<lambda>bw. 0 \<le> iv_start bw \<and> iv_start bw < iv_end bw \<and> iv_end bw \<le> 18000000)
        [Interval 0 18000000]
   \<and> accumulate [Seg 0 6000000 Active, Seg 6000000 18000000 Inactive] [Interval 0 18000000]
       = (3602879701896397 / 36028797018963968, 3602879701896397 / 18014398509481984)
   \<and> fst (accumulate [Seg 0 6000000 Active, Seg 6000000 18000000 Inactive] [Interval 0 18000000])
        + snd (accumulate [Seg 0 6000000 Active, Seg 6000000 18000000 Inactive] [Interval 0 18000000])
       \<noteq> real_of_int (sum_list (map duration [Interval 0 18000000])) / 1000000 / 60"
  by (simp add: accumulate_six_twelve duration_def)


section \<open>Report assembly: properties\<close>

lemma store_row_id:
  "store_row lib db h d w sid = Inr r \<Longrightarrow> rr_store_id r = sid"
  by (auto simp: store_row_def Let_def split: sum.splits)

lemma rows_loop_ids:
  "rows_loop lib db h d w stores rows = Inr out \<Longrightarrow>
   map rr_store_id out = map rr_store_id rows @ stores"
proof (induction stores arbitrary: rows)
  case Nil then show ?case by simp
next
  case (Cons sid stores)
  from Cons.prems obtain r where r: "store_row lib db h d w sid = Inr r"
    and l: "rows_loop lib db h d w stores (rows @ [r]) = Inr out"
    by (auto split: sum.splits)
  from Cons.IH [OF l] store_row_id [OF r] show ?case by simp
qed

lemma compute_ids:
  assumes "compute_and_write_csv lib db = Inr rows"
  shows "map rr_store_id rows = store_ids db"
proof -
  from assms obtain now where
    "rows_loop lib db (now - US_PER_HOUR, now) (now - US_PER_DAY, now) (now - 7 * US_PER_DAY, now)
       (store_ids db) [] = Inr rows"
    by (auto simp: compute_and_write_csv_def Let_def split: sum.splits)
  from rows_loop_ids [OF this] show ?thesis by simp
qed

lemma store_ids_eq:
  "store_ids db = sorted_list_of_set
     (ss_store_id ` set (store_status_rows db) \<union> tz_store_id ` set (store_timezone_rows db))"
  by (simp add: store_ids_def)

subsection \<open>Runs on concrete databases\<close>

lemma fl_whole:
  "fl 24 = 24" "fl 60 = 60" "fl 168 = 168" "fl 1440 = 1440" "fl 3600 = 3600"
  "fl 10080 = 10080" "fl 86400 = 86400" "fl 604800 = 604800"
  by (simp_all add: fl_eval)

lemma round2_vals: "round2 0 = 0" "round2 60 = 60" "round2 24 = 24" "round2 168 = 168"
  by (simp_all add: round2_def round_half_even_def Let_def fl_whole)

lemma store_ids_db3: "store_ids db3 = [''a'', ''b'', ''c'']"
  by code_simp

lemma store_ids_db2: "store_ids db2 = [''a'']"
  by code_simp

lemma store_row_db3:
  "sid \<in> {''a'', ''b'', ''c''} \<Longrightarrow>
   store_row lib0 db3 (- 3600000000, 0) (- 86400000000, 0) (- 604800000000, 0) sid
     = Inr (row0 sid)"
  by (auto simp add: store_row_def db3_def hours_map_def business_windows_utc_def
      status_segments_def rows_in_window_def prev_ping_def initial_status_def accumulate_def
      Let_def fl_whole round2_vals row0_def)

lemma store_row_db2:
  "store_row lib0 db2 (- 3600000000, 0) (- 86400000000, 0) (- 604800000000, 0) ''a''
     = Inr (row0 ''a'')"
  by (simp add: store_row_def db2_def hours_map_def business_windows_utc_def
      status_segments_def rows_in_window_def prev_ping_def initial_status_def accumulate_def
      Let_def fl_whole round2_vals row0_def)

lemma compute_db3:
  "compute_and_write_csv lib0 db3 = Inr [row0 ''a'', row0 ''b'', row0 ''c'']"
  by (simp add: compute_and_write_csv_def max_now_def store_ids_db3 store_row_db3 Let_def
        US_PER_HOUR_def US_PER_DAY_def db3_def [THEN arg_cong [where f = store_status_rows]])

lemma compute_db2: "compute_and_write_csv lib0 db2 = Inr [row0 ''a'']"
  by (simp add: compute_and_write_csv_def max_now_def store_ids_db2 store_row_db2 Let_def
        US_PER_HOUR_def US_PER_DAY_def db2_def [THEN arg_cong [where f = store_status_rows]])

subsection \<open>Known stores and row order\<close>

text \<open>
  Claim C3, as the code has it.  When the report is produced, the store identifiers of
  its rows, in order, are the sorted list of the set of stores that have a ping or a
  timezone record: one row for each such store, no store twice, ascending by
  identifier.  A store that has only business-hours records is not among them.
\<close>

theorem report_rows_known_stores:
  assumes "compute_and_write_csv lib db = Inr rows"
  shows "map rr_store_id rows
           = sorted_list_of_set (ss_store_id ` set (store_status_rows db)
                                 \<union> tz_store_id ` set (store_timezone_rows db))
       \<and> rr_store_id ` set rows
           = ss_store_id ` set (store_status_rows db) \<union> tz_store_id ` set (store_timezone_rows db)
       \<and> distinct (map rr_store_id rows)
       \<and> sorted (map rr_store_id rows)"
proof -
  let ?K = "ss_store_id ` set (store_status_rows db) \<union> tz_store_id ` set (store_timezone_rows db)"
  have fin: "finite ?K" by simp
  have eq: "map rr_store_id rows = sorted_list_of_set ?K"
    using compute_ids [OF assms] by (simp add: store_ids_eq)
  have "set (map rr_store_id rows) = ?K" unfolding eq using fin by simp
  then have s: "rr_store_id ` set rows = ?K" by simp
  have d: "distinct (map rr_store_id rows)" unfolding eq by simp
  have o: "sorted (map rr_store_id rows)" unfolding eq by simp
  from eq s d o show ?thesis by blast
qed

theorem report_rows_known_stores_witness:
  "compute_and_write_csv lib0 db3 = Inr [row0 ''a'', row0 ''b'', row0 ''c'']
   \<and> map rr_store_id [row0 ''a'', row0 ''b'', row0 ''c''] = [''a'', ''b'', ''c'']
   \<and> ss_store_id ` set (store_status_rows db3) \<union> tz_store_id ` set (store_timezone_rows db3)
       = {''a'', ''b'', ''c''}"
  using report_rows_known_stores [OF compute_db3] compute_db3
  by (auto simp: row0_def db3_def)


text \<open>
  With stores that have a schedule record counted as known, the claim fails: in
  \<open>db2\<close> store \<open>b\<close> has business hours but neither a ping nor a timezone record, and
  the report has a row for store \<open>a\<close> only.
\<close>

theorem known_stores_schedule_only_counterexample:
  "compute_and_write_csv lib0 db2 = Inr [row0 ''a'']
   \<and> ''b'' \<in> known_stores_claimed db2
   \<and> ''b'' \<notin> rr_store_id ` set [row0 ''a'']
   \<and> rr_store_id ` set [row0 ''a''] \<noteq> known_stores_claimed db2"
proof -
  have m: "''b'' \<in> known_stores_claimed db2" by (simp add: known_stores_claimed_def db2_def)
  have n: "''b'' \<notin> rr_store_id ` set [row0 ''a'']" by (simp add: row0_def)
  from m n have "rr_store_id ` set [row0 ''a''] \<noteq> known_stores_claimed db2" by blast
  with compute_db2 m n show ?thesis by blast
qed


subsection \<open>The reference instant and the three ranges\<close>

lemma hours_map_loop_error:
  "hours_map_loop lib rows out = Inl e \<Longrightarrow> e = ValueError"
  by (induction rows arbitrary: out) (auto split: option.splits)

lemma business_windows_error:
  "business_windows_utc z tzname hs a b = Inl e \<Longrightarrow> e = ZoneInfoNotFoundError"
  by (auto simp: business_windows_utc_def Let_def split: if_splits option.splits)

lemma store_row_error:
  "store_row lib db h d w sid = Inl e \<Longrightarrow> e \<noteq> RuntimeError_NoObservations"
  by (auto simp: store_row_def hours_map_def Let_def split: sum.splits
           dest!: hours_map_loop_error business_windows_error)

lemma rows_loop_error:
  "rows_loop lib db h d w stores rows = Inl e \<Longrightarrow> e \<noteq> RuntimeError_NoObservations"
proof (induction stores arbitrary: rows)
  case Nil then show ?case by simp
next
  case (Cons sid stores)
  show ?case
  proof (cases "store_row lib db h d w sid")
    case (Inl e')
    with Cons.prems have "e = e'" by simp
    with store_row_error [OF Inl] show ?thesis by simp
  next
    case (Inr r)
    with Cons.prems have "rows_loop lib db h d w stores (rows @ [r]) = Inl e" by simp
    then show ?thesis by (rule Cons.IH)
  qed
qed

lemma hours_map_loop_ok:
  "\<forall>r\<in>set rows. parse_time lib (start_time_local r) \<noteq> None \<and> parse_time lib (end_time_local r) \<noteq> None
   \<Longrightarrow> \<exists>h. hours_map_loop lib rows out = Inr h"
  by (induction rows arbitrary: out) auto

lemma business_windows_ok:
  "z (case tzname of None \<Rightarrow> ''America/Chicago'' | Some n \<Rightarrow> if n = [] then ''America/Chicago'' else n) \<noteq> None
   \<Longrightarrow> \<exists>bw. business_windows_utc z tzname hs a b = Inr bw"
  by (auto simp: business_windows_utc_def Let_def split: option.splits)

lemma tz_for_cases:
  "tz_for db sid = DEFAULT_TZ \<or> (\<exists>r\<in>set (store_timezone_rows db). tz_for db sid = timezone_str r)"
  by (auto simp: tz_for_def find_Some_iff split: option.splits)

lemma store_row_ok:
  assumes "wellformed_data lib db"
  shows "\<exists>r. store_row lib db h d w sid = Inr r"
proof -
  from assms have "\<forall>r\<in>set (filter (\<lambda>r. bh_store_id r = sid) (business_hours_rows db)).
     parse_time lib (start_time_local r) \<noteq> None \<and> parse_time lib (end_time_local r) \<noteq> None"
    by (simp add: wellformed_data_def)
  from hours_map_loop_ok [OF this] obtain hs where hs: "hours_map lib db sid = Inr hs"
    unfolding hours_map_def by blast
  have z: "ZoneInfo lib (case Some (tz_for db sid) of None \<Rightarrow> ''America/Chicago''
              | Some n \<Rightarrow> if n = [] then ''America/Chicago'' else n) \<noteq> None"
    using assms tz_for_cases [of db sid] by (auto simp: wellformed_data_def DEFAULT_TZ_def)
  have ok: "\<exists>bw. business_windows_utc (ZoneInfo lib) (Some (tz_for db sid)) (Some hs) a b = Inr bw"
    for a b
    using z by (rule business_windows_ok [where z = "ZoneInfo lib" and tzname = "Some (tz_for db sid)"])
  from ok obtain bh where
    bh: "business_windows_utc (ZoneInfo lib) (Some (tz_for db sid)) (Some hs) (fst h) (snd h) = Inr bh"
    by blast
  from ok obtain bd where
    bd: "business_windows_utc (ZoneInfo lib) (Some (tz_for db sid)) (Some hs) (fst d) (snd d) = Inr bd"
    by blast
  from ok obtain bw where
    bw: "business_windows_utc (ZoneInfo lib) (Some (tz_for db sid)) (Some hs) (fst w) (snd w) = Inr bw"
    by blast
  show ?thesis by (simp add: store_row_def Let_def hs bh bd bw)
qed

lemma rows_loop_ok:
  assumes "wellformed_data lib db"
  shows "\<exists>out. rows_loop lib db h d w stores rows = Inr out"
proof (induction stores arbitrary: rows)
  case Nil show ?case by simp
next
  case (Cons sid stores)
  from store_row_ok [OF assms] obtain r where "store_row lib db h d w sid = Inr r" by blast
  with Cons.IH [of "rows @ [r]"] show ?case by simp
qed

lemma max_now_Inr:
  assumes "store_status_rows db \<noteq> []"
  shows "max_now db = Inr (Max (timestamp_utc ` set (store_status_rows db)))"
  using assms by (cases "store_status_rows db") (simp_all add: max_now_def)

text \<open>
  Claim C9.  The run ends with the error of \<^verbatim>\<open>_max_now\<close> exactly when the table of
  pings is empty.  When there is a ping, \<open>now\<close> is the largest ping timestamp and the
  rows are computed over \<open>[now - 1h, now)\<close>, \<open>[now - 1d, now)\<close> and
  \<open>[now - 7d, now)\<close> (in microseconds).  With schedule data the libraries accept,
  nothing else fails: the run returns rows exactly when there is a ping.
\<close>

theorem report_now_and_ranges:
  "(compute_and_write_csv lib db = Inl RuntimeError_NoObservations \<longleftrightarrow> store_status_rows db = [])
   \<and> (store_status_rows db \<noteq> [] \<longrightarrow>
        (\<exists>now. max_now db = Inr now
           \<and> now \<in> timestamp_utc ` set (store_status_rows db)
           \<and> (\<forall>p\<in>set (store_status_rows db). timestamp_utc p \<le> now)
           \<and> compute_and_write_csv lib db
               = rows_loop lib db (now - 3600000000, now) (now - 86400000000, now)
                   (now - 604800000000, now) (store_ids db) []))
   \<and> (wellformed_data lib db \<longrightarrow>
        ((\<exists>rows. compute_and_write_csv lib db = Inr rows) \<longleftrightarrow> store_status_rows db \<noteq> []))"
proof (cases "store_status_rows db = []")
  case True
  then have "compute_and_write_csv lib db = Inl RuntimeError_NoObservations"
    by (simp add: compute_and_write_csv_def max_now_def)
  with True show ?thesis by simp
next
  case False
  let ?now = "Max (timestamp_utc ` set (store_status_rows db))"
  have fin: "finite (timestamp_utc ` set (store_status_rows db))" by simp
  have ne: "timestamp_utc ` set (store_status_rows db) \<noteq> {}" using False by simp
  have m: "max_now db = Inr ?now" by (rule max_now_Inr [OF False])
  have mem: "?now \<in> timestamp_utc ` set (store_status_rows db)" by (rule Max_in [OF fin ne])
  have ub: "\<forall>p\<in>set (store_status_rows db). timestamp_utc p \<le> ?now"
    using fin by (simp add: Max_ge)
  have c: "compute_and_write_csv lib db
             = rows_loop lib db (?now - 3600000000, ?now) (?now - 86400000000, ?now)
                 (?now - 604800000000, ?now) (store_ids db) []"
    by (simp add: compute_and_write_csv_def m Let_def US_PER_HOUR_def US_PER_DAY_def)
  have n: "compute_and_write_csv lib db \<noteq> Inl RuntimeError_NoObservations"
    unfolding c using rows_loop_error by blast
  have w: "\<exists>rows. compute_and_write_csv lib db = Inr rows" if "wellformed_data lib db"
    unfolding c by (rule rows_loop_ok [OF that])
  from False m mem ub c n w show ?thesis by blast
qed

theorem report_now_and_ranges_witness:
  "store_status_rows db3 \<noteq> []
   \<and> wellformed_data lib0 db3
   \<and> max_now db3 = Inr 0
   \<and> compute_and_write_csv lib0 db3 = Inr [row0 ''a'', row0 ''b'', row0 ''c'']
   \<and> rows_loop lib0 db3 (0 - 3600000000, 0) (0 - 86400000000, 0) (0 - 604800000000, 0)
        (store_ids db3) [] = Inr [row0 ''a'', row0 ''b'', row0 ''c'']
   \<and> store_status_rows db0 = []
   \<and> compute_and_write_csv lib0 db0 = Inl RuntimeError_NoObservations"
  using report_now_and_ranges [of lib0 db3] report_now_and_ranges [of lib0 db0] compute_db3
  by (auto simp: db3_def db0_def wellformed_data_def lib0_def max_now_def)

end
